theory Spec2Isabelle
  imports Main "HOL-Library.Word" "HOL-Library.Multiset"
begin


unbundle bit_operations_syntax

section \<open>Machine types, faults and callbacks\<close>

text \<open>
  The embedding follows \<^verbatim>\<open>BLI_ghash.c\<close> built with \<^verbatim>\<open>GHASH_USE_MODULO_BUCKETS\<close>
  (the only configuration the file defines) on an LP64 target: \<^verbatim>\<open>unsigned int\<close> is a
  32-bit word, a \<^verbatim>\<open>void *\<close> is a 64-bit word whose value 0 is \<^verbatim>\<open>NULL\<close>.
\<close>

type_synonym uint = "32 word"
type_synonym ptr = "64 word"

definition NULL :: ptr where
  "NULL = 0"

text \<open>
  What ends a call without a result: a failed assertion (tagged with the asserted
  expression), or C undefined behaviour that the model refuses to give a value to:
  a read or write through a null bucket array or outside its allocated length, a
  remainder by a zero bucket count, and the read of a value slot that was never written.
  \<open>ILL_FORMED\<close> marks a run that would depend on the meaning of a statement the
  compiler rejects.
\<close>

datatype error = ASSERT string | SEGV | SIGFPE | UNSET_VALUE | ILL_FORMED

definition bind_err :: "error + 'a \<Rightarrow> ('a \<Rightarrow> error + 'b) \<Rightarrow> error + 'b" where
  "bind_err m f = (case m of Inl e \<Rightarrow> Inl e | Inr x \<Rightarrow> f x)"

text \<open>
  Modelled from the spec: the macro \<^verbatim>\<open>BLI_assert\<close> lives in \<^verbatim>\<open>BLI_utildefines.h\<close>, which
  is not part of the sources at hand. The spec says that a violated assertion aborts the
  operation. The source itself makes every assertion a debug-build feature
  (\<^verbatim>\<open>#ifndef NDEBUG\<close>), so the build switch is a parameter: with \<open>NDEBUG\<close> the macro
  expands to nothing.
\<close>

definition BLI_assert :: "bool \<Rightarrow> bool \<Rightarrow> string \<Rightarrow> error + unit" where
  "BLI_assert NDEBUG a txt = (if NDEBUG \<or> a then Inr () else Inl (ASSERT txt))"

text \<open>
  A function pointer is an address together with the code found there; the source
  compares callbacks by address and calls them through the pointer.
\<close>

datatype 'f fnptr = FnPtr (fn_addr: nat) (fn_call: 'f)

type_synonym GHashHashFP = "(ptr \<Rightarrow> uint) fnptr"
type_synonym GHashCmpFP = "(ptr \<Rightarrow> ptr \<Rightarrow> bool) fnptr"

text \<open>
  Copy callbacks return the pointer to the copy. Free callbacks only act on the caller's
  memory: a call is recorded as an event naming the callback's address and the slot
  content it was given. \<open>None\<close> is the null callback.
\<close>

type_synonym GHashKeyCopyFP = "(ptr \<Rightarrow> ptr) option"
type_synonym GHashValCopyFP = "(ptr \<Rightarrow> ptr) option"
type_synonym GHashKeyFreeFP = "nat option"
type_synonym GHashValFreeFP = "nat option"

datatype event = Call nat "ptr option"

definition call_free :: "nat option \<Rightarrow> ptr option \<Rightarrow> event list" where
  "call_free fp slot = (case fp of None \<Rightarrow> [] | Some f \<Rightarrow> [Call f slot])"

section \<open>Constants\<close>

definition hashsizes :: "uint list" where
  "hashsizes = [5, 11, 17, 37, 67, 131, 257, 521, 1031, 2053, 4099, 8209,
     16411, 32771, 65537, 131101, 262147, 524309, 1048583, 2097169,
     4194319, 8388617, 16777259, 33554467, 67108879, 134217757,
     268435459]"

definition GHASH_MAX_SIZE :: uint where
  "GHASH_MAX_SIZE = 27"

definition GHASH_FLAG_IS_SET :: uint where
  "GHASH_FLAG_IS_SET = push_bit 8 1"

text \<open>
  Modelled from the spec: the two public flag bits are declared in the header
  \<^verbatim>\<open>BLI_ghash.h\<close>, which is not part of the sources at hand. The spec names them as
  optional bits of the flags word; they are taken as the two lowest bits.
\<close>

definition GHASH_FLAG_ALLOW_DUPES :: uint where
  "GHASH_FLAG_ALLOW_DUPES = push_bit 0 1"

definition GHASH_FLAG_ALLOW_SHRINK :: uint where
  "GHASH_FLAG_ALLOW_SHRINK = push_bit 1 1"

definition GHASH_LIMIT_GROW :: "uint \<Rightarrow> uint" where
  "GHASH_LIMIT_GROW nbkt = (nbkt * 3) div 4"

definition GHASH_LIMIT_SHRINK :: "uint \<Rightarrow> uint" where
  "GHASH_LIMIT_SHRINK nbkt = (nbkt * 3) div 16"

section \<open>Entries and tables\<close>

text \<open>
  The \<^verbatim>\<open>next\<close> link of an entry is the list structure of its chain. The value slot is
  \<open>None\<close> until it is written: a set entry has no such slot, and a key-only insert
  leaves it unset.
\<close>

record Entry =
  hash :: uint
  key :: ptr
  val :: "ptr option"

text \<open>Entry sizes on LP64: link 8, hash 4 (padded to 8), key 8, value 8 bytes.\<close>

definition GHASH_ENTRY_SIZE :: nat where
  "GHASH_ENTRY_SIZE = 32"

definition GSET_ENTRY_SIZE :: nat where
  "GSET_ENTRY_SIZE = 32 - 8"

text \<open>
  \<^verbatim>\<open>entry_copy\<close> copies \<open>entry_size\<close> bytes less the link: hash and key for both sizes
  in use, the value slot only when the size covers it. The destination is a fresh pool
  record or a live entry; its value slot keeps its content when it is not covered.
\<close>

definition entry_copy ::
  "Entry \<Rightarrow> Entry \<Rightarrow> nat \<Rightarrow> GHashKeyCopyFP \<Rightarrow> GHashValCopyFP \<Rightarrow> Entry" where
  "entry_copy dst src entry_size keycopyfp valcopyfp =
     (let d1 = dst\<lparr>hash := hash src, key := key src,
                   val := (if GHASH_ENTRY_SIZE \<le> entry_size then val src else val dst)\<rparr>;
          d2 = (case keycopyfp of None \<Rightarrow> d1 | Some f \<Rightarrow> d1\<lparr>key := f (key src)\<rparr>)
      in (case valcopyfp of None \<Rightarrow> d2 | Some g \<Rightarrow> d2\<lparr>val := map_option g (val src)\<rparr>))"

text \<open>A record fresh from the pool: nothing in it has been written.\<close>

definition fresh_entry :: Entry where
  "fresh_entry = \<lparr>hash = 0, key = NULL, val = None\<rparr>"

text \<open>
  The bucket array is \<open>None\<close> while the pointer is null. The entry pool is an external
  collaborator; the table only relies on its count of live records.
\<close>

record GHash =
  hashfp :: GHashHashFP
  cmpfp :: GHashCmpFP
  buckets :: "Entry list list option"
  entrypool :: nat
  nbuckets :: uint
  limit_grow :: uint
  limit_shrink :: uint
  cursize :: uint
  size_min :: uint
  nentries :: uint
  flag :: uint
  entry_size :: nat

definition BLI_mempool_alloc :: "GHash \<Rightarrow> GHash" where
  "BLI_mempool_alloc gh = gh\<lparr>entrypool := entrypool gh + 1\<rparr>"

definition BLI_mempool_free :: "GHash \<Rightarrow> GHash" where
  "BLI_mempool_free gh = gh\<lparr>entrypool := entrypool gh - 1\<rparr>"

definition IS_GHASH_ASSERT :: "bool \<Rightarrow> GHash \<Rightarrow> error + unit" where
  "IS_GHASH_ASSERT NDEBUG gh =
     BLI_assert NDEBUG (flag gh AND GHASH_FLAG_IS_SET = 0) ''(gh->flag & GHASH_FLAG_IS_SET) == 0''"

section \<open>Internal utility API\<close>

definition ghash_keyhash :: "GHash \<Rightarrow> ptr \<Rightarrow> uint" where
  "ghash_keyhash gh k = fn_call (hashfp gh) k"

definition ghash_bucket_hash :: "GHash \<Rightarrow> uint \<Rightarrow> error + uint" where
  "ghash_bucket_hash gh full_hash =
     (if nbuckets gh = 0 then Inl SIGFPE else Inr (full_hash mod nbuckets gh))"

text \<open>Reading and writing \<^verbatim>\<open>gh->buckets[i]\<close>.\<close>

definition bucket_get :: "GHash \<Rightarrow> uint \<Rightarrow> error + Entry list" where
  "bucket_get gh i =
     (case buckets gh of None \<Rightarrow> Inl SEGV
      | Some bs \<Rightarrow> if unat i < length bs then Inr (bs ! unat i) else Inl SEGV)"

definition bucket_set :: "GHash \<Rightarrow> uint \<Rightarrow> Entry list \<Rightarrow> error + GHash" where
  "bucket_set gh i chain =
     (case buckets gh of None \<Rightarrow> Inl SEGV
      | Some bs \<Rightarrow> if unat i < length bs then Inr (gh\<lparr>buckets := Some (bs[unat i := chain])\<rparr>)
                   else Inl SEGV)"

text \<open>
  The entries met by \<^verbatim>\<open>for (i = 0; i < gh->nbuckets; i++) for (e = gh->buckets[i]; e; e = e->next)\<close>,
  in the order of the walk.
\<close>

definition ghash_entries :: "GHash \<Rightarrow> error + Entry list" where
  "ghash_entries gh =
     (case buckets gh of None \<Rightarrow> (if nbuckets gh = 0 then Inr [] else Inl SEGV)
      | Some bs \<Rightarrow> if unat (nbuckets gh) \<le> length bs
                   then Inr (concat (take (unat (nbuckets gh)) bs)) else Inl SEGV)"

subsection \<open>Resizing\<close>

text \<open>One step of the rehash loop: the entry is pushed on the chain of its new bucket.\<close>

definition rehash_entry :: "uint \<Rightarrow> Entry list list \<Rightarrow> Entry \<Rightarrow> Entry list list" where
  "rehash_entry nb bs e =
     (let bucket_hash = unat (hash e mod nb) in bs[bucket_hash := e # bs ! bucket_hash])"

text \<open>
  Both branches of the source (growing and shrinking) run the same loop in modulo mode.
  The new array has \<open>nb\<close> zeroed heads, so the writes of the loop are in range as soon as
  \<open>nb\<close> is not zero; with \<open>nb = 0\<close> the first entry moved divides by zero.
\<close>

definition ghash_resize_buckets :: "bool \<Rightarrow> GHash \<Rightarrow> uint \<Rightarrow> error + GHash" where
  "ghash_resize_buckets NDEBUG gh nb =
     bind_err (BLI_assert NDEBUG (nbuckets gh \<noteq> nb \<or> buckets gh = None)
                 ''(gh->nbuckets != nbuckets) || !gh->buckets'')
       (\<lambda>_. let buckets_new = replicate (unat nb) [] in
          case buckets gh of
            None \<Rightarrow> Inr (gh\<lparr>nbuckets := nb, buckets := Some buckets_new\<rparr>)
          | Some _ \<Rightarrow>
              bind_err (ghash_entries gh)
                (\<lambda>es. if es \<noteq> [] \<and> nb = 0 then Inl SIGFPE
                      else Inr (gh\<lparr>nbuckets := nb,
                                   buckets := Some (foldl (rehash_entry nb) buckets_new es)\<rparr>)))"

text \<open>
  The two loops of \<^verbatim>\<open>ghash_expand_buckets\<close> work on the local \<^verbatim>\<open>new_nbuckets\<close>, the
  cursor \<^verbatim>\<open>gh->cursize\<close> and one limit.
\<close>

function grow_loop :: "uint \<Rightarrow> uint \<times> uint \<times> uint \<Rightarrow> uint \<times> uint \<times> uint" where
  "grow_loop n (new_nbuckets, cs, lg) =
     (if n > lg \<and> cs < GHASH_MAX_SIZE - 1
      then grow_loop n (hashsizes ! unat (cs + 1), cs + 1,
                        GHASH_LIMIT_GROW (hashsizes ! unat (cs + 1)))
      else (new_nbuckets, cs, lg))"
  by pat_completeness auto
termination
proof (relation "measure (\<lambda>(n, nb, cs, lg). 26 - unat cs)")
  show "wf (measure (\<lambda>(n, nb, cs, lg). 26 - unat cs))" by simp
next
  fix n :: uint and new_nbuckets cs lg :: uint
  assume "n > lg \<and> cs < GHASH_MAX_SIZE - 1"
  then have "cs < 26" by (simp add: GHASH_MAX_SIZE_def)
  then have "unat cs < 26" by (simp add: word_less_nat_alt)
  moreover from this have "unat (cs + 1) = unat cs + 1"
    by (simp add: unat_word_ariths)
  ultimately show "((n, hashsizes ! unat (cs + 1), cs + 1,
            GHASH_LIMIT_GROW (hashsizes ! unat (cs + 1))), n, new_nbuckets, cs, lg)
        \<in> measure (\<lambda>(n, nb, cs, lg). 26 - unat cs)"
    by simp
qed

function shrink_loop :: "uint \<Rightarrow> uint \<Rightarrow> uint \<times> uint \<times> uint \<Rightarrow> uint \<times> uint \<times> uint" where
  "shrink_loop n smin (new_nbuckets, cs, ls) =
     (if n < ls \<and> cs > smin
      then shrink_loop n smin (hashsizes ! unat (cs - 1), cs - 1,
                               GHASH_LIMIT_SHRINK (hashsizes ! unat (cs - 1)))
      else (new_nbuckets, cs, ls))"
  by pat_completeness auto
termination
proof (relation "measure (\<lambda>(n, smin, nb, cs, ls). unat cs)")
  show "wf (measure (\<lambda>(n, smin, nb, cs, ls). unat cs))" by simp
next
  fix n smin new_nbuckets cs ls :: uint
  assume "n < ls \<and> cs > smin"
  then have "cs \<noteq> 0" by (auto simp: word_less_nat_alt)
  then have "unat (cs - 1) < unat cs"
    by (simp add: unat_minus_one unat_gt_0)
  then show "((n, smin, hashsizes ! unat (cs - 1), cs - 1,
            GHASH_LIMIT_SHRINK (hashsizes ! unat (cs - 1))), n, smin, new_nbuckets, cs, ls)
        \<in> measure (\<lambda>(n, smin, nb, cs, ls). unat cs)"
    by simp
qed

declare grow_loop.simps [simp del] shrink_loop.simps [simp del]

definition ghash_expand_buckets :: "bool \<Rightarrow> GHash \<Rightarrow> uint \<Rightarrow> bool \<Rightarrow> bool \<Rightarrow> error + GHash" where
  "ghash_expand_buckets NDEBUG gh n user_defined force_shrink =
     (if buckets gh \<noteq> None \<and> n < limit_grow gh \<and> n > limit_shrink gh then Inr gh
      else
        let (nb1, cs1, lg1) = grow_loop n (nbuckets gh, cursize gh, limit_grow gh);
            (nb2, cs2, ls2) =
               (if force_shrink \<or> flag gh AND GHASH_FLAG_ALLOW_SHRINK \<noteq> 0
                then shrink_loop n (size_min gh) (nb1, cs1, limit_shrink gh)
                else (nb1, cs1, limit_shrink gh));
            gh1 = gh\<lparr>cursize := cs2, limit_grow := lg1, limit_shrink := ls2\<rparr>;
            gh2 = (if user_defined then gh1\<lparr>size_min := cs2\<rparr> else gh1)
        in if nb2 = nbuckets gh \<and> buckets gh \<noteq> None then Inr gh2
           else ghash_resize_buckets NDEBUG
                  (gh2\<lparr>limit_grow := GHASH_LIMIT_GROW nb2,
                       limit_shrink := GHASH_LIMIT_SHRINK nb2\<rparr>) nb2)"

definition ghash_buckets_reset :: "bool \<Rightarrow> GHash \<Rightarrow> uint \<Rightarrow> error + GHash" where
  "ghash_buckets_reset NDEBUG gh n =
     (let nb = hashsizes ! 0 in
      ghash_expand_buckets NDEBUG
        (gh\<lparr>buckets := None, cursize := 0, size_min := 0, nbuckets := nb,
            limit_grow := GHASH_LIMIT_GROW nb, limit_shrink := GHASH_LIMIT_SHRINK nb,
            nentries := 0, flag := 0\<rparr>)
        n (n \<noteq> 0) False)"

subsection \<open>Lookup\<close>

text \<open>
  A pointer to an entry of a chain: the entries before it (what the trailing pointer
  \<^verbatim>\<open>e_prev\<close> has passed), the entry itself, and the entries after it.
\<close>

type_synonym Entry_ptr = "Entry list \<times> Entry \<times> Entry list"

fun chain_walk :: "(Entry \<Rightarrow> bool) \<Rightarrow> Entry list \<Rightarrow> Entry_ptr option" where
  "chain_walk P [] = None"
| "chain_walk P (e # es) =
     (if P e then Some ([], e, es)
      else (case chain_walk P es of None \<Rightarrow> None
            | Some (pre, x, post) \<Rightarrow> Some (e # pre, x, post)))"

text \<open>The test of the lookup loop: cached hash first, then the comparison callback.\<close>

definition key_match :: "GHash \<Rightarrow> ptr \<Rightarrow> uint \<Rightarrow> Entry \<Rightarrow> bool" where
  "key_match gh k h e = (hash e = h \<and> fn_call (cmpfp gh) k (key e) = False)"

definition ghash_lookup_entry_ex ::
  "GHash \<Rightarrow> ptr \<Rightarrow> uint \<Rightarrow> uint \<Rightarrow> error + Entry_ptr option" where
  "ghash_lookup_entry_ex gh k h bucket_hash =
     bind_err (bucket_get gh bucket_hash) (\<lambda>chain. Inr (chain_walk (key_match gh k h) chain))"

definition ghash_lookup_entry :: "GHash \<Rightarrow> ptr \<Rightarrow> error + Entry_ptr option" where
  "ghash_lookup_entry gh k =
     (let h = ghash_keyhash gh k in
      bind_err (ghash_bucket_hash gh h) (\<lambda>bucket_hash. ghash_lookup_entry_ex gh k h bucket_hash))"

definition BLI_ghash_haskey :: "GHash \<Rightarrow> ptr \<Rightarrow> error + bool" where
  "BLI_ghash_haskey gh k = bind_err (ghash_lookup_entry gh k) (\<lambda>e. Inr (e \<noteq> None))"

subsection \<open>Creation\<close>

text \<open>
  The fields of the freshly allocated struct that \<^verbatim>\<open>ghash_buckets_reset\<close> overwrites
  before anything reads them start at 0 here.
\<close>

definition ghash_new ::
  "bool \<Rightarrow> GHashHashFP \<Rightarrow> GHashCmpFP \<Rightarrow> uint \<Rightarrow> nat \<Rightarrow> error + GHash" where
  "ghash_new NDEBUG hfp cfp nentries_reserve esize =
     bind_err
       (ghash_buckets_reset NDEBUG
          \<lparr>hashfp = hfp, cmpfp = cfp, buckets = None, entrypool = 0, nbuckets = 0,
           limit_grow = 0, limit_shrink = 0, cursize = 0, size_min = 0, nentries = 0,
           flag = 0, entry_size = esize\<rparr> nentries_reserve)
       (\<lambda>gh. Inr (gh\<lparr>entrypool := 0, entry_size := esize\<rparr>))"

subsection \<open>Insertion\<close>

text \<open>\<^verbatim>\<open>e->next = gh->buckets[b]; gh->buckets[b] = e;\<close>\<close>

definition link_entry :: "GHash \<Rightarrow> uint \<Rightarrow> Entry \<Rightarrow> error + GHash" where
  "link_entry gh bucket_hash e =
     bind_err (bucket_get gh bucket_hash) (\<lambda>chain. bucket_set gh bucket_hash (e # chain))"

definition assert_no_dupes :: "bool \<Rightarrow> GHash \<Rightarrow> ptr \<Rightarrow> error + unit" where
  "assert_no_dupes NDEBUG gh k =
     (if NDEBUG \<or> flag gh AND GHASH_FLAG_ALLOW_DUPES \<noteq> 0 then Inr ()
      else bind_err (BLI_ghash_haskey gh k)
             (\<lambda>b. BLI_assert NDEBUG (b = False)
                ''(gh->flag & GHASH_FLAG_ALLOW_DUPES) || (BLI_ghash_haskey(gh, key) == 0)''))"

definition ghash_insert_ex ::
  "bool \<Rightarrow> GHash \<Rightarrow> ptr \<Rightarrow> ptr \<Rightarrow> uint \<Rightarrow> uint \<Rightarrow> error + GHash" where
  "ghash_insert_ex NDEBUG gh k v h bucket_hash =
     (let gh0 = BLI_mempool_alloc gh in
      bind_err (assert_no_dupes NDEBUG gh0 k) (\<lambda>_.
      bind_err (IS_GHASH_ASSERT NDEBUG gh0) (\<lambda>_.
      bind_err (link_entry gh0 bucket_hash (fresh_entry\<lparr>hash := h, key := k, val := Some v\<rparr>))
        (\<lambda>gh1. ghash_expand_buckets NDEBUG (gh1\<lparr>nentries := nentries gh1 + 1\<rparr>)
                  (nentries gh1 + 1) False False))))"

definition ghash_insert_ex_keyonly ::
  "bool \<Rightarrow> GHash \<Rightarrow> ptr \<Rightarrow> uint \<Rightarrow> uint \<Rightarrow> error + GHash" where
  "ghash_insert_ex_keyonly NDEBUG gh k h bucket_hash =
     (let gh0 = BLI_mempool_alloc gh in
      bind_err (assert_no_dupes NDEBUG gh0 k) (\<lambda>_.
      bind_err (link_entry gh0 bucket_hash (fresh_entry\<lparr>hash := h, key := k\<rparr>))
        (\<lambda>gh1. ghash_expand_buckets NDEBUG (gh1\<lparr>nentries := nentries gh1 + 1\<rparr>)
                  (nentries gh1 + 1) False False)))"

definition ghash_insert :: "bool \<Rightarrow> GHash \<Rightarrow> ptr \<Rightarrow> ptr \<Rightarrow> error + GHash" where
  "ghash_insert NDEBUG gh k v =
     (let h = ghash_keyhash gh k in
      bind_err (ghash_bucket_hash gh h) (\<lambda>bucket_hash. ghash_insert_ex NDEBUG gh k v h bucket_hash))"

definition ghash_insert_safe ::
  "bool \<Rightarrow> GHash \<Rightarrow> ptr \<Rightarrow> ptr \<Rightarrow> bool \<Rightarrow> GHashKeyFreeFP \<Rightarrow> GHashValFreeFP
     \<Rightarrow> error + (bool \<times> GHash \<times> event list)" where
  "ghash_insert_safe NDEBUG gh k v override keyfreefp valfreefp =
     (let h = ghash_keyhash gh k in
      bind_err (ghash_bucket_hash gh h) (\<lambda>bucket_hash.
      bind_err (ghash_lookup_entry_ex gh k h bucket_hash) (\<lambda>e.
        case e of
          Some (pre, x, post) \<Rightarrow>
            if override
            then bind_err (bucket_set gh bucket_hash (pre @ x\<lparr>key := k, val := Some v\<rparr> # post))
                   (\<lambda>gh'. Inr (False, gh',
                      call_free keyfreefp (Some (key x)) @ call_free valfreefp (val x)))
            else Inr (False, gh, [])
        | None \<Rightarrow>
            bind_err (ghash_insert_ex NDEBUG gh k v h bucket_hash) (\<lambda>gh'. Inr (True, gh', [])))))"

definition ghash_insert_safe_keyonly ::
  "bool \<Rightarrow> GHash \<Rightarrow> ptr \<Rightarrow> bool \<Rightarrow> GHashKeyFreeFP \<Rightarrow> error + (bool \<times> GHash \<times> event list)" where
  "ghash_insert_safe_keyonly NDEBUG gh k override keyfreefp =
     (let h = ghash_keyhash gh k in
      bind_err (ghash_bucket_hash gh h) (\<lambda>bucket_hash.
      bind_err (ghash_lookup_entry_ex gh k h bucket_hash) (\<lambda>e.
        case e of
          Some (pre, x, post) \<Rightarrow>
            if override
            then bind_err (bucket_set gh bucket_hash (pre @ x\<lparr>key := k\<rparr> # post))
                   (\<lambda>gh'. Inr (False, gh', call_free keyfreefp (Some (key x))))
            else Inr (False, gh, [])
        | None \<Rightarrow>
            bind_err (ghash_insert_ex_keyonly NDEBUG gh k h bucket_hash)
              (\<lambda>gh'. Inr (True, gh', [])))))"

subsection \<open>Removal\<close>

text \<open>
  The removed entry is returned to the caller, who gives it back to the pool. The free
  callbacks run before the entry is unlinked.
\<close>

definition ghash_remove_ex ::
  "bool \<Rightarrow> GHash \<Rightarrow> ptr \<Rightarrow> GHashKeyFreeFP \<Rightarrow> GHashValFreeFP \<Rightarrow> uint \<Rightarrow> uint
     \<Rightarrow> error + (Entry option \<times> GHash \<times> event list)" where
  "ghash_remove_ex NDEBUG gh k keyfreefp valfreefp h bucket_hash =
     bind_err (bucket_get gh bucket_hash) (\<lambda>chain.
       case chain_walk (key_match gh k h) chain of
         None \<Rightarrow> Inr (None, gh, [])
       | Some (pre, e, post) \<Rightarrow>
           bind_err (bucket_set gh bucket_hash (pre @ post)) (\<lambda>gh1.
           bind_err (ghash_expand_buckets NDEBUG (gh1\<lparr>nentries := nentries gh1 - 1\<rparr>)
                       (nentries gh1 - 1) False False)
             (\<lambda>gh2. Inr (Some e, gh2,
                call_free keyfreefp (Some (key e)) @ call_free valfreefp (val e)))))"

definition free_entry_events :: "GHashKeyFreeFP \<Rightarrow> GHashValFreeFP \<Rightarrow> Entry \<Rightarrow> event list" where
  "free_entry_events keyfreefp valfreefp e =
     call_free keyfreefp (Some (key e)) @ call_free valfreefp (val e)"

definition ghash_free_cb ::
  "bool \<Rightarrow> GHash \<Rightarrow> GHashKeyFreeFP \<Rightarrow> GHashValFreeFP \<Rightarrow> error + event list" where
  "ghash_free_cb NDEBUG gh keyfreefp valfreefp =
     bind_err (BLI_assert NDEBUG (keyfreefp \<noteq> None \<or> valfreefp \<noteq> None) ''keyfreefp || valfreefp'')
       (\<lambda>_. bind_err (ghash_entries gh)
          (\<lambda>es. Inr (concat (map (free_entry_events keyfreefp valfreefp) es))))"

subsection \<open>Copy\<close>

fun copy_loop ::
  "nat \<Rightarrow> GHashKeyCopyFP \<Rightarrow> GHashValCopyFP \<Rightarrow> Entry list \<Rightarrow> GHash \<Rightarrow> error + GHash" where
  "copy_loop esize keycopyfp valcopyfp [] gh_new = Inr gh_new"
| "copy_loop esize keycopyfp valcopyfp (e # es) gh_new =
     (let gh0 = BLI_mempool_alloc gh_new in
      bind_err (ghash_bucket_hash gh0 (hash e)) (\<lambda>gh_new_bucket_hash.
      bind_err (link_entry gh0 gh_new_bucket_hash
                  (entry_copy fresh_entry e esize keycopyfp valcopyfp))
        (copy_loop esize keycopyfp valcopyfp es)))"

definition ghash_copy ::
  "bool \<Rightarrow> GHash \<Rightarrow> GHashKeyCopyFP \<Rightarrow> GHashValCopyFP \<Rightarrow> error + GHash" where
  "ghash_copy NDEBUG gh keycopyfp valcopyfp =
     bind_err (ghash_new NDEBUG (hashfp gh) (cmpfp gh) 0 (entry_size gh)) (\<lambda>gh_new.
     bind_err (ghash_expand_buckets NDEBUG gh_new (nentries gh) False False) (\<lambda>gh_new.
     bind_err (ghash_entries gh) (\<lambda>es.
     bind_err (copy_loop (entry_size gh) keycopyfp valcopyfp es gh_new)
       (\<lambda>gh_new. Inr (gh_new\<lparr>nentries := nentries gh\<rparr>)))))"

subsection \<open>Set algebra\<close>

text \<open>
  The variadic operands are the first table \<open>gh1\<close> (null when a new table is wanted),
  the second table \<open>gh2\<close> and the list \<open>arg\<close> of the further tables up to the
  terminating null. Operands are objects distinct from the destination.
\<close>

definition assert_same_callbacks :: "bool \<Rightarrow> GHash \<Rightarrow> GHash \<Rightarrow> error + unit" where
  "assert_same_callbacks NDEBUG gh1 ghn =
     bind_err (BLI_assert NDEBUG (fn_addr (cmpfp gh1) = fn_addr (cmpfp ghn)) ''gh1->cmpfp == ghn->cmpfp'')
       (\<lambda>_. BLI_assert NDEBUG (fn_addr (hashfp gh1) = fn_addr (hashfp ghn)) ''gh1->hashfp == ghn->hashfp'')"

text \<open>
  The start shared by the four operations: \<^verbatim>\<open>BLI_assert(ghn)\<close>, then the copy of the
  second table when there is no first one. The result is the destination and the
  operands still to be visited.
\<close>

definition setop_start ::
  "bool \<Rightarrow> GHashKeyCopyFP \<Rightarrow> GHashValCopyFP \<Rightarrow> GHash option \<Rightarrow> GHash option \<Rightarrow> GHash list
     \<Rightarrow> error + (GHash \<times> GHash list)" where
  "setop_start NDEBUG keycopyfp valcopyfp gh1 gh2 arg =
     bind_err (BLI_assert NDEBUG (gh2 \<noteq> None) ''ghn'') (\<lambda>_.
       case gh1 of
         Some g1 \<Rightarrow> Inr (g1, (case gh2 of None \<Rightarrow> [] | Some g2 \<Rightarrow> g2 # arg))
       | None \<Rightarrow>
           (case gh2 of None \<Rightarrow> Inl SEGV
            | Some g2 \<Rightarrow> bind_err (ghash_copy NDEBUG g2 keycopyfp valcopyfp) (\<lambda>g1. Inr (g1, arg))))"

text \<open>Adding a copy of the entry \<open>e\<close> of another table: allocate, copy, link, count, resize.\<close>

definition add_entry_copy ::
  "bool \<Rightarrow> GHash \<Rightarrow> uint \<Rightarrow> Entry \<Rightarrow> nat \<Rightarrow> GHashKeyCopyFP \<Rightarrow> GHashValCopyFP \<Rightarrow> error + GHash" where
  "add_entry_copy NDEBUG gh bucket_hash e esize keycopyfp valcopyfp =
     bind_err (link_entry (BLI_mempool_alloc gh) bucket_hash
                 (entry_copy fresh_entry e esize keycopyfp valcopyfp))
       (\<lambda>gh'. ghash_expand_buckets NDEBUG (gh'\<lparr>nentries := nentries gh' + 1\<rparr>)
                 (nentries gh' + 1) False False)"

fun union_loop ::
  "bool \<Rightarrow> bool \<Rightarrow> GHashKeyCopyFP \<Rightarrow> GHashValCopyFP \<Rightarrow> GHashKeyFreeFP \<Rightarrow> GHashValFreeFP
     \<Rightarrow> nat \<Rightarrow> Entry list \<Rightarrow> GHash \<times> event list \<Rightarrow> error + (GHash \<times> event list)" where
  "union_loop NDEBUG reverse keycopyfp valcopyfp keyfreefp valfreefp esize [] st = Inr st"
| "union_loop NDEBUG reverse keycopyfp valcopyfp keyfreefp valfreefp esize (e # es) (gh1, log) =
     bind_err (ghash_bucket_hash gh1 (hash e)) (\<lambda>gh1_bucket_hash.
     bind_err (ghash_lookup_entry_ex gh1 (key e) (hash e) gh1_bucket_hash) (\<lambda>e_gh1.
     bind_err
       (case e_gh1 of
          None \<Rightarrow>
            bind_err (add_entry_copy NDEBUG gh1 gh1_bucket_hash e esize keycopyfp valcopyfp)
              (\<lambda>gh1'. Inr (gh1', log))
        | Some (pre, x, post) \<Rightarrow>
            if reverse
            then bind_err (bucket_set gh1 gh1_bucket_hash
                             (pre @ entry_copy x e esize keycopyfp valcopyfp # post))
                   (\<lambda>gh1'. Inr (gh1', log @ free_entry_events keyfreefp valfreefp x))
            else Inr (gh1, log))
       (union_loop NDEBUG reverse keycopyfp valcopyfp keyfreefp valfreefp esize es)))"

fun union_operands ::
  "bool \<Rightarrow> bool \<Rightarrow> GHashKeyCopyFP \<Rightarrow> GHashValCopyFP \<Rightarrow> GHashKeyFreeFP \<Rightarrow> GHashValFreeFP
     \<Rightarrow> nat \<Rightarrow> GHash list \<Rightarrow> GHash \<times> event list \<Rightarrow> error + (GHash \<times> event list)" where
  "union_operands NDEBUG reverse keycopyfp valcopyfp keyfreefp valfreefp esize [] st = Inr st"
| "union_operands NDEBUG reverse keycopyfp valcopyfp keyfreefp valfreefp esize (ghn # rest) (gh1, log) =
     bind_err (assert_same_callbacks NDEBUG gh1 ghn) (\<lambda>_.
     bind_err (BLI_assert NDEBUG (esize = entry_size ghn) ''entry_size == ghn->entry_size'') (\<lambda>_.
     bind_err (ghash_entries ghn) (\<lambda>es.
     bind_err (union_loop NDEBUG reverse keycopyfp valcopyfp keyfreefp valfreefp esize es (gh1, log))
       (union_operands NDEBUG reverse keycopyfp valcopyfp keyfreefp valfreefp esize rest))))"

definition ghash_union ::
  "bool \<Rightarrow> bool \<Rightarrow> GHashKeyCopyFP \<Rightarrow> GHashValCopyFP \<Rightarrow> GHashKeyFreeFP \<Rightarrow> GHashValFreeFP
     \<Rightarrow> GHash option \<Rightarrow> GHash option \<Rightarrow> GHash list \<Rightarrow> error + (GHash \<times> event list)" where
  "ghash_union NDEBUG reverse keycopyfp valcopyfp keyfreefp valfreefp gh1 gh2 arg =
     bind_err (setop_start NDEBUG keycopyfp valcopyfp gh1 gh2 arg) (\<lambda>(g1, ops).
       union_operands NDEBUG reverse keycopyfp valcopyfp keyfreefp valfreefp (entry_size g1)
         ops (g1, []))"

text \<open>
  Intersection and difference sweep every chain of the destination and unlink the
  entries that fail the test against the current operand: \<open>keep_found\<close> is true for the
  intersection (an entry stays when its key is found in the operand) and false for the
  difference. The sweep returns the chain that is left, the free events and the number
  of the entries removed.
\<close>

fun sweep_chain ::
  "bool \<Rightarrow> GHashKeyFreeFP \<Rightarrow> GHashValFreeFP \<Rightarrow> GHash \<Rightarrow> Entry list
     \<Rightarrow> error + (Entry list \<times> event list \<times> nat)" where
  "sweep_chain keep_found keyfreefp valfreefp ghn [] = Inr ([], [], 0)"
| "sweep_chain keep_found keyfreefp valfreefp ghn (e # es) =
     bind_err (ghash_bucket_hash ghn (hash e)) (\<lambda>ghn_bucket_hash.
     bind_err (ghash_lookup_entry_ex ghn (key e) (hash e) ghn_bucket_hash) (\<lambda>found.
     bind_err (sweep_chain keep_found keyfreefp valfreefp ghn es) (\<lambda>(kept, evs, n).
       if (found \<noteq> None) = keep_found then Inr (e # kept, evs, n)
       else Inr (kept, free_entry_events keyfreefp valfreefp e @ evs, Suc n))))"

fun sweep_buckets ::
  "bool \<Rightarrow> GHashKeyFreeFP \<Rightarrow> GHashValFreeFP \<Rightarrow> GHash \<Rightarrow> Entry list list
     \<Rightarrow> error + (Entry list list \<times> event list \<times> nat)" where
  "sweep_buckets keep_found keyfreefp valfreefp ghn [] = Inr ([], [], 0)"
| "sweep_buckets keep_found keyfreefp valfreefp ghn (chain # more_chains) =
     bind_err (sweep_chain keep_found keyfreefp valfreefp ghn chain) (\<lambda>(kept, evs, n).
     bind_err (sweep_buckets keep_found keyfreefp valfreefp ghn more_chains) (\<lambda>(kepts, evs', n').
       Inr (kept # kepts, evs @ evs', n + n')))"

definition sweep_table ::
  "bool \<Rightarrow> bool \<Rightarrow> GHashKeyFreeFP \<Rightarrow> GHashValFreeFP \<Rightarrow> GHash \<Rightarrow> GHash \<times> event list
     \<Rightarrow> error + (GHash \<times> event list)" where
  "sweep_table NDEBUG keep_found keyfreefp valfreefp ghn st =
     (case st of (gh1, log) \<Rightarrow>
      bind_err (assert_same_callbacks NDEBUG gh1 ghn) (\<lambda>_.
        case buckets gh1 of
          None \<Rightarrow> if nbuckets gh1 = 0
                  then bind_err (ghash_expand_buckets NDEBUG gh1 (nentries gh1) False True)
                         (\<lambda>g. Inr (g, log))
                  else Inl SEGV
        | Some bs \<Rightarrow>
            if length bs < unat (nbuckets gh1) then Inl SEGV
            else
              bind_err (sweep_buckets keep_found keyfreefp valfreefp ghn (take (unat (nbuckets gh1)) bs))
                (\<lambda>(kepts, evs, n).
                   let new_gh1_nentries = nentries gh1 - of_nat n;
                       gh1' = gh1\<lparr>buckets := Some (kepts @ drop (unat (nbuckets gh1)) bs),
                                  entrypool := entrypool gh1 - n,
                                  nentries := new_gh1_nentries\<rparr>
                   in bind_err (ghash_expand_buckets NDEBUG gh1' new_gh1_nentries False True)
                        (\<lambda>g. Inr (g, log @ evs)))))"

fun sweep_operands ::
  "bool \<Rightarrow> bool \<Rightarrow> GHashKeyFreeFP \<Rightarrow> GHashValFreeFP \<Rightarrow> GHash list \<Rightarrow> GHash \<times> event list
     \<Rightarrow> error + (GHash \<times> event list)" where
  "sweep_operands NDEBUG keep_found keyfreefp valfreefp [] st = Inr st"
| "sweep_operands NDEBUG keep_found keyfreefp valfreefp (ghn # rest) st =
     bind_err (sweep_table NDEBUG keep_found keyfreefp valfreefp ghn st)
       (sweep_operands NDEBUG keep_found keyfreefp valfreefp rest)"

definition ghash_intersection ::
  "bool \<Rightarrow> GHashKeyCopyFP \<Rightarrow> GHashValCopyFP \<Rightarrow> GHashKeyFreeFP \<Rightarrow> GHashValFreeFP
     \<Rightarrow> GHash option \<Rightarrow> GHash option \<Rightarrow> GHash list \<Rightarrow> error + (GHash \<times> event list)" where
  "ghash_intersection NDEBUG keycopyfp valcopyfp keyfreefp valfreefp gh1 gh2 arg =
     bind_err (setop_start NDEBUG keycopyfp valcopyfp gh1 gh2 arg) (\<lambda>(g1, ops).
       sweep_operands NDEBUG True keyfreefp valfreefp ops (g1, []))"

definition ghash_difference ::
  "bool \<Rightarrow> GHashKeyCopyFP \<Rightarrow> GHashValCopyFP \<Rightarrow> GHashKeyFreeFP \<Rightarrow> GHashValFreeFP
     \<Rightarrow> GHash option \<Rightarrow> GHash option \<Rightarrow> GHash list \<Rightarrow> error + (GHash \<times> event list)" where
  "ghash_difference NDEBUG keycopyfp valcopyfp keyfreefp valfreefp gh1 gh2 arg =
     bind_err (setop_start NDEBUG keycopyfp valcopyfp gh1 gh2 arg) (\<lambda>(g1, ops).
       sweep_operands NDEBUG False keyfreefp valfreefp ops (g1, []))"

subsection \<open>Freeing a table\<close>

definition BLI_ghash_free ::
  "bool \<Rightarrow> GHash \<Rightarrow> GHashKeyFreeFP \<Rightarrow> GHashValFreeFP \<Rightarrow> error + event list" where
  "BLI_ghash_free NDEBUG gh keyfreefp valfreefp =
     bind_err (BLI_assert NDEBUG (sint (nentries gh) = int (entrypool gh))
                 ''(int)gh->nentries == BLI_mempool_count(gh->entrypool)'')
       (\<lambda>_. if keyfreefp \<noteq> None \<or> valfreefp \<noteq> None
             then ghash_free_cb NDEBUG gh keyfreefp valfreefp else Inr [])"

subsection \<open>Symmetric difference\<close>

text \<open>
  First pass, one operand entry: a key already in the scratch map \<open>keys\<close> goes to the
  scratch set \<open>rem_keys\<close> (linked without any lookup there), any other key goes to
  \<open>keys\<close>.
\<close>

fun symdiff_first_loop ::
  "bool \<Rightarrow> nat \<Rightarrow> Entry list \<Rightarrow> GHash \<times> GHash \<Rightarrow> error + (GHash \<times> GHash)" where
  "symdiff_first_loop NDEBUG esize [] st = Inr st"
| "symdiff_first_loop NDEBUG esize (e # es) (keys, rem_keys) =
     bind_err (ghash_bucket_hash keys (hash e)) (\<lambda>keys_bucket_hash.
     bind_err (ghash_lookup_entry_ex keys (key e) (hash e) keys_bucket_hash) (\<lambda>found.
     bind_err
       (case found of
          Some _ \<Rightarrow>
            bind_err (ghash_bucket_hash rem_keys (hash e)) (\<lambda>rem_keys_bucket_hash.
            bind_err (add_entry_copy NDEBUG rem_keys rem_keys_bucket_hash e GSET_ENTRY_SIZE None None)
              (\<lambda>rem_keys'. Inr (keys, rem_keys')))
        | None \<Rightarrow>
            bind_err (add_entry_copy NDEBUG keys keys_bucket_hash e esize None None)
              (\<lambda>keys'. Inr (keys', rem_keys)))
       (symdiff_first_loop NDEBUG esize es)))"

text \<open>
  The third assertion of the first pass is written \<^verbatim>\<open>BLI_assert(entry_size = ghn->entry_size)\<close>,
  an assignment to the local \<open>entry_size\<close>, which is declared \<^verbatim>\<open>const\<close>. With \<open>NDEBUG\<close> the
  line expands to nothing and the local keeps the destination's entry size. A build
  that compiles its assertions rejects the line, so the file as it stands has no such
  build; \<open>NDEBUG = False\<close> stands for the file with this line repaired, and the model
  does not choose the repair. When the operand's entry size is the destination's, the
  line checks and changes nothing however it is read (as the comparison of
  \<^verbatim>\<open>ghash_union\<close>, or as the assignment of the same size); when the sizes differ the run
  ends with \<open>ILL_FORMED\<close>.
\<close>

fun symdiff_first_pass ::
  "bool \<Rightarrow> GHash \<Rightarrow> nat \<Rightarrow> GHash list \<Rightarrow> GHash \<times> GHash \<Rightarrow> error + (GHash \<times> GHash)" where
  "symdiff_first_pass NDEBUG gh1 esize [] st = Inr st"
| "symdiff_first_pass NDEBUG gh1 esize (ghn # rest) (keys, rem_keys) =
     bind_err (assert_same_callbacks NDEBUG gh1 ghn) (\<lambda>_.
     bind_err (if NDEBUG \<or> entry_size ghn = esize then Inr () else Inl ILL_FORMED) (\<lambda>_.
     bind_err (ghash_entries ghn) (\<lambda>es.
     bind_err (symdiff_first_loop NDEBUG esize es (keys, rem_keys))
       (symdiff_first_pass NDEBUG gh1 esize rest))))"

text \<open>
  Second pass, one entry \<open>e\<close> of \<open>rem_keys\<close>: unlink its key from \<open>keys\<close>, assert that
  it was found there, then unlink it from the destination when present. Both walks
  call \<^verbatim>\<open>keys->cmpfp\<close> with the chain entry's key first.
\<close>

definition unlink_match ::
  "GHash \<Rightarrow> uint \<Rightarrow> (Entry \<Rightarrow> bool) \<Rightarrow> error + (Entry option \<times> GHash)" where
  "unlink_match gh bucket_hash P =
     bind_err (bucket_get gh bucket_hash) (\<lambda>chain.
       case chain_walk P chain of
         None \<Rightarrow> Inr (None, gh)
       | Some (pre, e_curr, post) \<Rightarrow>
           bind_err (bucket_set gh bucket_hash (pre @ post))
             (\<lambda>gh'. Inr (Some e_curr, BLI_mempool_free (gh'\<lparr>nentries := nentries gh' - 1\<rparr>))))"

fun symdiff_second_loop ::
  "bool \<Rightarrow> GHashKeyFreeFP \<Rightarrow> GHashValFreeFP \<Rightarrow> Entry list \<Rightarrow> GHash \<times> GHash \<times> event list
     \<Rightarrow> error + (GHash \<times> GHash \<times> event list)" where
  "symdiff_second_loop NDEBUG keyfreefp valfreefp [] st = Inr st"
| "symdiff_second_loop NDEBUG keyfreefp valfreefp (e # es) (keys, gh1, log) =
     bind_err (ghash_bucket_hash keys (hash e)) (\<lambda>keys_bucket_hash.
     bind_err (ghash_bucket_hash gh1 (hash e)) (\<lambda>gh1_bucket_hash.
     let P = (\<lambda>e_curr. hash e_curr = hash e \<and> fn_call (cmpfp keys) (key e_curr) (key e) = False) in
     bind_err (unlink_match keys keys_bucket_hash P) (\<lambda>(e_curr, keys').
     bind_err (BLI_assert NDEBUG (e_curr \<noteq> None) ''e_curr != NULL'') (\<lambda>_.
     bind_err (unlink_match gh1 gh1_bucket_hash P) (\<lambda>(e_gh1, gh1').
       symdiff_second_loop NDEBUG keyfreefp valfreefp es
         (keys', gh1',
          log @ (case e_gh1 of None \<Rightarrow> [] | Some x \<Rightarrow> free_entry_events keyfreefp valfreefp x)))))))"

text \<open>Final pass: every entry left in \<open>keys\<close> whose key the destination lacks is copied in.\<close>

fun symdiff_final_loop ::
  "bool \<Rightarrow> nat \<Rightarrow> GHashKeyCopyFP \<Rightarrow> GHashValCopyFP \<Rightarrow> Entry list \<Rightarrow> GHash \<Rightarrow> error + GHash" where
  "symdiff_final_loop NDEBUG esize keycopyfp valcopyfp [] gh1 = Inr gh1"
| "symdiff_final_loop NDEBUG esize keycopyfp valcopyfp (e # es) gh1 =
     bind_err (ghash_bucket_hash gh1 (hash e)) (\<lambda>gh1_bucket_hash.
     bind_err (ghash_lookup_entry_ex gh1 (key e) (hash e) gh1_bucket_hash) (\<lambda>found.
     bind_err
       (case found of
          None \<Rightarrow> add_entry_copy NDEBUG gh1 gh1_bucket_hash e esize keycopyfp valcopyfp
        | Some _ \<Rightarrow> Inr gh1)
       (symdiff_final_loop NDEBUG esize keycopyfp valcopyfp es)))"

definition ghash_symmetric_difference ::
  "bool \<Rightarrow> GHashKeyCopyFP \<Rightarrow> GHashValCopyFP \<Rightarrow> GHashKeyFreeFP \<Rightarrow> GHashValFreeFP
     \<Rightarrow> GHash option \<Rightarrow> GHash option \<Rightarrow> GHash list \<Rightarrow> error + (GHash \<times> event list)" where
  "ghash_symmetric_difference NDEBUG keycopyfp valcopyfp keyfreefp valfreefp gh1 gh2 arg =
     bind_err (setop_start NDEBUG keycopyfp valcopyfp gh1 gh2 arg) (\<lambda>(g1, ops).
     bind_err (ghash_copy NDEBUG g1 None None) (\<lambda>keys.
     bind_err (ghash_new NDEBUG (hashfp g1) (cmpfp g1) 64 GSET_ENTRY_SIZE) (\<lambda>rem_keys.
     bind_err (symdiff_first_pass NDEBUG g1 (entry_size g1) ops (keys, rem_keys))
       (\<lambda>(keys, rem_keys).
     bind_err (ghash_entries rem_keys) (\<lambda>rs.
     bind_err (symdiff_second_loop NDEBUG keyfreefp valfreefp rs (keys, g1, [])) (\<lambda>(keys, g1', log).
     bind_err (BLI_ghash_free NDEBUG rem_keys None None) (\<lambda>_.
     bind_err (ghash_entries keys) (\<lambda>ks.
     bind_err (symdiff_final_loop NDEBUG (entry_size g1) keycopyfp valcopyfp ks g1') (\<lambda>g1.
     bind_err (BLI_ghash_free NDEBUG keys None None) (\<lambda>_.
     bind_err (ghash_expand_buckets NDEBUG g1 (nentries g1) False True)
       (\<lambda>g1. Inr (g1, log))))))))))))"

section \<open>Public API\<close>

definition BLI_ghash_new_ex :: "bool \<Rightarrow> GHashHashFP \<Rightarrow> GHashCmpFP \<Rightarrow> uint \<Rightarrow> error + GHash" where
  "BLI_ghash_new_ex NDEBUG hfp cfp nentries_reserve =
     ghash_new NDEBUG hfp cfp nentries_reserve GHASH_ENTRY_SIZE"

definition BLI_ghash_new :: "bool \<Rightarrow> GHashHashFP \<Rightarrow> GHashCmpFP \<Rightarrow> error + GHash" where
  "BLI_ghash_new NDEBUG hfp cfp = BLI_ghash_new_ex NDEBUG hfp cfp 0"

definition BLI_ghash_copy ::
  "bool \<Rightarrow> GHash \<Rightarrow> GHashKeyCopyFP \<Rightarrow> GHashValCopyFP \<Rightarrow> error + GHash" where
  "BLI_ghash_copy NDEBUG gh keycopyfp valcopyfp = ghash_copy NDEBUG gh keycopyfp valcopyfp"

definition BLI_ghash_reserve :: "bool \<Rightarrow> GHash \<Rightarrow> uint \<Rightarrow> error + GHash" where
  "BLI_ghash_reserve NDEBUG gh nentries_reserve =
     ghash_expand_buckets NDEBUG gh nentries_reserve True False"

definition BLI_ghash_size :: "GHash \<Rightarrow> int" where
  "BLI_ghash_size gh = sint (nentries gh)"

definition BLI_ghash_insert :: "bool \<Rightarrow> GHash \<Rightarrow> ptr \<Rightarrow> ptr \<Rightarrow> error + GHash" where
  "BLI_ghash_insert NDEBUG gh k v = ghash_insert NDEBUG gh k v"

definition BLI_ghash_add :: "bool \<Rightarrow> GHash \<Rightarrow> ptr \<Rightarrow> ptr \<Rightarrow> error + (bool \<times> GHash \<times> event list)" where
  "BLI_ghash_add NDEBUG gh k v = ghash_insert_safe NDEBUG gh k v False None None"

definition BLI_ghash_reinsert ::
  "bool \<Rightarrow> GHash \<Rightarrow> ptr \<Rightarrow> ptr \<Rightarrow> GHashKeyFreeFP \<Rightarrow> GHashValFreeFP
     \<Rightarrow> error + (bool \<times> GHash \<times> event list)" where
  "BLI_ghash_reinsert NDEBUG gh k v keyfreefp valfreefp =
     ghash_insert_safe NDEBUG gh k v True keyfreefp valfreefp"

text \<open>\<^verbatim>\<open>e->val\<close> read as a pointer value.\<close>

definition read_val :: "Entry \<Rightarrow> error + ptr" where
  "read_val e = (case val e of None \<Rightarrow> Inl UNSET_VALUE | Some v \<Rightarrow> Inr v)"

definition BLI_ghash_lookup :: "bool \<Rightarrow> GHash \<Rightarrow> ptr \<Rightarrow> error + ptr" where
  "BLI_ghash_lookup NDEBUG gh k =
     bind_err (ghash_lookup_entry gh k) (\<lambda>e.
     bind_err (IS_GHASH_ASSERT NDEBUG gh) (\<lambda>_.
       case e of None \<Rightarrow> Inr NULL | Some (pre, x, post) \<Rightarrow> read_val x))"

definition BLI_ghash_lookup_default :: "bool \<Rightarrow> GHash \<Rightarrow> ptr \<Rightarrow> ptr \<Rightarrow> error + ptr" where
  "BLI_ghash_lookup_default NDEBUG gh k val_default =
     bind_err (ghash_lookup_entry gh k) (\<lambda>e.
     bind_err (IS_GHASH_ASSERT NDEBUG gh) (\<lambda>_.
       case e of None \<Rightarrow> Inr val_default | Some (pre, x, post) \<Rightarrow> read_val x))"

text \<open>The address of the value slot is the pointer to its entry; \<open>None\<close> is the null result.\<close>

definition BLI_ghash_lookup_p :: "bool \<Rightarrow> GHash \<Rightarrow> ptr \<Rightarrow> error + Entry_ptr option" where
  "BLI_ghash_lookup_p NDEBUG gh k =
     bind_err (ghash_lookup_entry gh k) (\<lambda>e.
     bind_err (IS_GHASH_ASSERT NDEBUG gh) (\<lambda>_. Inr e))"

definition BLI_ghash_remove ::
  "bool \<Rightarrow> GHash \<Rightarrow> ptr \<Rightarrow> GHashKeyFreeFP \<Rightarrow> GHashValFreeFP
     \<Rightarrow> error + (bool \<times> GHash \<times> event list)" where
  "BLI_ghash_remove NDEBUG gh k keyfreefp valfreefp =
     (let h = ghash_keyhash gh k in
      bind_err (ghash_bucket_hash gh h) (\<lambda>bucket_hash.
      bind_err (ghash_remove_ex NDEBUG gh k keyfreefp valfreefp h bucket_hash) (\<lambda>(e, gh', evs).
        case e of Some x \<Rightarrow> Inr (True, BLI_mempool_free gh', evs)
                | None \<Rightarrow> Inr (False, gh', evs))))"

definition BLI_ghash_popkey ::
  "bool \<Rightarrow> GHash \<Rightarrow> ptr \<Rightarrow> GHashKeyFreeFP \<Rightarrow> error + (ptr \<times> GHash \<times> event list)" where
  "BLI_ghash_popkey NDEBUG gh k keyfreefp =
     (let h = ghash_keyhash gh k in
      bind_err (ghash_bucket_hash gh h) (\<lambda>bucket_hash.
      bind_err (ghash_remove_ex NDEBUG gh k keyfreefp None h bucket_hash) (\<lambda>(e, gh', evs).
      bind_err (IS_GHASH_ASSERT NDEBUG gh') (\<lambda>_.
        case e of Some x \<Rightarrow> bind_err (read_val x) (\<lambda>v. Inr (v, BLI_mempool_free gh', evs))
                | None \<Rightarrow> Inr (NULL, gh', evs)))))"

definition BLI_ghash_clear_ex ::
  "bool \<Rightarrow> GHash \<Rightarrow> GHashKeyFreeFP \<Rightarrow> GHashValFreeFP \<Rightarrow> uint \<Rightarrow> error + (GHash \<times> event list)" where
  "BLI_ghash_clear_ex NDEBUG gh keyfreefp valfreefp nentries_reserve =
     bind_err (if keyfreefp \<noteq> None \<or> valfreefp \<noteq> None
               then ghash_free_cb NDEBUG gh keyfreefp valfreefp else Inr []) (\<lambda>evs.
     bind_err (ghash_buckets_reset NDEBUG gh nentries_reserve)
       (\<lambda>gh'. Inr (gh'\<lparr>entrypool := 0\<rparr>, evs)))"

definition BLI_ghash_clear ::
  "bool \<Rightarrow> GHash \<Rightarrow> GHashKeyFreeFP \<Rightarrow> GHashValFreeFP \<Rightarrow> error + (GHash \<times> event list)" where
  "BLI_ghash_clear NDEBUG gh keyfreefp valfreefp = BLI_ghash_clear_ex NDEBUG gh keyfreefp valfreefp 0"

definition BLI_ghash_flag_set :: "GHash \<Rightarrow> uint \<Rightarrow> GHash" where
  "BLI_ghash_flag_set gh f = gh\<lparr>flag := flag gh OR f\<rparr>"

definition BLI_ghash_flag_clear :: "GHash \<Rightarrow> uint \<Rightarrow> GHash" where
  "BLI_ghash_flag_clear gh f = gh\<lparr>flag := flag gh AND NOT f\<rparr>"

definition BLI_ghash_union ::
  "bool \<Rightarrow> GHashKeyCopyFP \<Rightarrow> GHashValCopyFP \<Rightarrow> GHash option \<Rightarrow> GHash option \<Rightarrow> GHash list
     \<Rightarrow> error + (GHash \<times> event list)" where
  "BLI_ghash_union NDEBUG keycopyfp valcopyfp gh1 gh2 arg =
     ghash_union NDEBUG False keycopyfp valcopyfp None None gh1 gh2 arg"

definition BLI_ghash_union_reversed ::
  "bool \<Rightarrow> GHashKeyCopyFP \<Rightarrow> GHashValCopyFP \<Rightarrow> GHashKeyFreeFP \<Rightarrow> GHashValFreeFP
     \<Rightarrow> GHash option \<Rightarrow> GHash option \<Rightarrow> GHash list \<Rightarrow> error + (GHash \<times> event list)" where
  "BLI_ghash_union_reversed NDEBUG keycopyfp valcopyfp keyfreefp valfreefp gh1 gh2 arg =
     ghash_union NDEBUG True keycopyfp valcopyfp keyfreefp valfreefp gh1 gh2 arg"

definition BLI_ghash_intersection ::
  "bool \<Rightarrow> GHashKeyCopyFP \<Rightarrow> GHashValCopyFP \<Rightarrow> GHashKeyFreeFP \<Rightarrow> GHashValFreeFP
     \<Rightarrow> GHash option \<Rightarrow> GHash option \<Rightarrow> GHash list \<Rightarrow> error + (GHash \<times> event list)" where
  "BLI_ghash_intersection NDEBUG keycopyfp valcopyfp keyfreefp valfreefp gh1 gh2 arg =
     ghash_intersection NDEBUG keycopyfp valcopyfp keyfreefp valfreefp gh1 gh2 arg"

definition BLI_ghash_difference ::
  "bool \<Rightarrow> GHashKeyCopyFP \<Rightarrow> GHashValCopyFP \<Rightarrow> GHashKeyFreeFP \<Rightarrow> GHashValFreeFP
     \<Rightarrow> GHash option \<Rightarrow> GHash option \<Rightarrow> GHash list \<Rightarrow> error + (GHash \<times> event list)" where
  "BLI_ghash_difference NDEBUG keycopyfp valcopyfp keyfreefp valfreefp gh1 gh2 arg =
     ghash_difference NDEBUG keycopyfp valcopyfp keyfreefp valfreefp gh1 gh2 arg"

definition BLI_ghash_symmetric_difference ::
  "bool \<Rightarrow> GHashKeyCopyFP \<Rightarrow> GHashValCopyFP \<Rightarrow> GHashKeyFreeFP \<Rightarrow> GHashValFreeFP
     \<Rightarrow> GHash option \<Rightarrow> GHash option \<Rightarrow> GHash list \<Rightarrow> error + (GHash \<times> event list)" where
  "BLI_ghash_symmetric_difference NDEBUG keycopyfp valcopyfp keyfreefp valfreefp gh1 gh2 arg =
     ghash_symmetric_difference NDEBUG keycopyfp valcopyfp keyfreefp valfreefp gh1 gh2 arg"

subsection \<open>Pointer hashing and comparison\<close>

definition BLI_ghashutil_ptrhash :: "ptr \<Rightarrow> uint" where
  "BLI_ghashutil_ptrhash k = ucast (drop_bit 4 k OR push_bit (8 * 8 - 4) k)"

definition BLI_ghashutil_ptrcmp :: "ptr \<Rightarrow> ptr \<Rightarrow> bool" where
  "BLI_ghashutil_ptrcmp a b = (a \<noteq> b)"

text \<open>The two callbacks as function pointers; the addresses only need to differ.\<close>

definition ptrhash_fp :: GHashHashFP where
  "ptrhash_fp = FnPtr 1 BLI_ghashutil_ptrhash"

definition ptrcmp_fp :: GHashCmpFP where
  "ptrcmp_fp = FnPtr 2 BLI_ghashutil_ptrcmp"

definition BLI_ghash_ptr_new_ex :: "bool \<Rightarrow> uint \<Rightarrow> error + GHash" where
  "BLI_ghash_ptr_new_ex NDEBUG nentries_reserve =
     BLI_ghash_new_ex NDEBUG ptrhash_fp ptrcmp_fp nentries_reserve"

definition BLI_ghash_ptr_new :: "bool \<Rightarrow> error + GHash" where
  "BLI_ghash_ptr_new NDEBUG = BLI_ghash_ptr_new_ex NDEBUG 0"

subsection \<open>GSet API\<close>

definition BLI_gset_new_ex :: "bool \<Rightarrow> GHashHashFP \<Rightarrow> GHashCmpFP \<Rightarrow> uint \<Rightarrow> error + GHash" where
  "BLI_gset_new_ex NDEBUG hfp cfp nentries_reserve =
     bind_err (ghash_new NDEBUG hfp cfp nentries_reserve GSET_ENTRY_SIZE)
       (\<lambda>gs. Inr (if NDEBUG then gs else gs\<lparr>flag := flag gs OR GHASH_FLAG_IS_SET\<rparr>))"

definition BLI_gset_ptr_new_ex :: "bool \<Rightarrow> uint \<Rightarrow> error + GHash" where
  "BLI_gset_ptr_new_ex NDEBUG nentries_reserve =
     BLI_gset_new_ex NDEBUG ptrhash_fp ptrcmp_fp nentries_reserve"

definition BLI_gset_ptr_new :: "bool \<Rightarrow> error + GHash" where
  "BLI_gset_ptr_new NDEBUG = BLI_gset_ptr_new_ex NDEBUG 0"

definition BLI_gset_insert :: "bool \<Rightarrow> GHash \<Rightarrow> ptr \<Rightarrow> error + GHash" where
  "BLI_gset_insert NDEBUG gs k =
     (let h = ghash_keyhash gs k in
      bind_err (ghash_bucket_hash gs h) (\<lambda>bucket_hash. ghash_insert_ex_keyonly NDEBUG gs k h bucket_hash))"

definition BLI_gset_add :: "bool \<Rightarrow> GHash \<Rightarrow> ptr \<Rightarrow> error + (bool \<times> GHash \<times> event list)" where
  "BLI_gset_add NDEBUG gs k = ghash_insert_safe_keyonly NDEBUG gs k False None"

definition BLI_gset_haskey :: "GHash \<Rightarrow> ptr \<Rightarrow> error + bool" where
  "BLI_gset_haskey gs k = bind_err (ghash_lookup_entry gs k) (\<lambda>e. Inr (e \<noteq> None))"

definition BLI_gset_intersection ::
  "bool \<Rightarrow> GHashKeyCopyFP \<Rightarrow> GHashKeyFreeFP \<Rightarrow> GHash option \<Rightarrow> GHash option \<Rightarrow> GHash list
     \<Rightarrow> error + (GHash \<times> event list)" where
  "BLI_gset_intersection NDEBUG keycopyfp keyfreefp gs1 gs2 arg =
     ghash_intersection NDEBUG keycopyfp None keyfreefp None gs1 gs2 arg"

definition BLI_gset_symmetric_difference ::
  "bool \<Rightarrow> GHashKeyCopyFP \<Rightarrow> GHashKeyFreeFP \<Rightarrow> GHash option \<Rightarrow> GHash option \<Rightarrow> GHash list
     \<Rightarrow> error + (GHash \<times> event list)" where
  "BLI_gset_symmetric_difference NDEBUG keycopyfp keyfreefp gs1 gs2 arg =
     ghash_symmetric_difference NDEBUG keycopyfp None keyfreefp None gs1 gs2 arg"

section \<open>Table invariants\<close>

text \<open>
  The bucket array exists, has \<open>nbuckets\<close> heads, \<open>nbuckets\<close> is not zero, and every
  entry sits in the chain that its cached hash selects (invariant 1 of the data model).
\<close>

definition buckets_ok :: "GHash \<Rightarrow> bool" where
  "buckets_ok gh =
     (case buckets gh of None \<Rightarrow> False
      | Some bs \<Rightarrow> nbuckets gh \<noteq> 0 \<and> length bs = unat (nbuckets gh) \<and>
          list_all (\<lambda>(i, chain). list_all (\<lambda>e. unat (hash e mod nbuckets gh) = i) chain)
            (enumerate 0 bs))"

text \<open>
  The resize state is consistent: the cursor is a step of the schedule at or above the
  floor, \<open>nbuckets\<close> is the bucket count of that step and the two limits are the ones
  computed from it.
\<close>

definition resize_ok :: "GHash \<Rightarrow> bool" where
  "resize_ok gh =
     (unat (cursize gh) < 27 \<and> size_min gh \<le> cursize gh \<and>
      nbuckets gh = hashsizes ! unat (cursize gh) \<and>
      limit_grow gh = GHASH_LIMIT_GROW (nbuckets gh) \<and>
      limit_shrink gh = GHASH_LIMIT_SHRINK (nbuckets gh))"

definition ghash_ok :: "GHash \<Rightarrow> bool" where
  "ghash_ok gh = (buckets_ok gh \<and> resize_ok gh)"

text \<open>All the entries of a table, chain after chain.\<close>

definition all_entries :: "GHash \<Rightarrow> Entry list" where
  "all_entries gh = (case buckets gh of None \<Rightarrow> [] | Some bs \<Rightarrow> concat bs)"

section \<open>Predicates and reference definitions used by the proofs\<close>

text \<open>Every entry of chain \<open>i\<close> has a cached hash that selects bucket \<open>i\<close>.\<close>

definition placed :: "uint \<Rightarrow> Entry list list \<Rightarrow> bool" where
  "placed nb bs = (\<forall>i < length bs. \<forall>e \<in> set (bs ! i). unat (hash e mod nb) = i)"

text \<open>
  What \<^verbatim>\<open>ghash_expand_buckets(gh, n, ...)\<close> guarantees about its result \<open>gh'\<close>: the
  invariants hold, the entries are the same, only buckets and resize state changed, and
  \<open>n\<close> lies inside the band of the new bucket count unless the cursor is at the end of
  the schedule or (when shrinking is allowed) at the floor; when shrinking is not
  allowed, \<open>n\<close> can be below the band only if the cursor did not move.
\<close>

definition expand_post :: "GHash \<Rightarrow> uint \<Rightarrow> bool \<Rightarrow> GHash \<Rightarrow> bool" where
  "expand_post gh n allow gh' =
     (resize_ok gh' \<and> buckets_ok gh' \<and> mset (all_entries gh') = mset (all_entries gh)
      \<and> hashfp gh' = hashfp gh \<and> cmpfp gh' = cmpfp gh \<and> entrypool gh' = entrypool gh
      \<and> nentries gh' = nentries gh \<and> flag gh' = flag gh \<and> entry_size gh' = entry_size gh
      \<and> (n \<le> limit_grow gh' \<or> unat (cursize gh') = 26)
      \<and> (allow \<longrightarrow> limit_shrink gh' \<le> n \<or> cursize gh' = size_min gh')
      \<and> (limit_shrink gh' \<le> n \<or> cursize gh' = size_min gh' \<or> cursize gh' = cursize gh))"

text \<open>The chain that a full hash selects.\<close>

definition chain_of :: "GHash \<Rightarrow> uint \<Rightarrow> Entry list" where
  "chain_of gh h = (case buckets gh of None \<Rightarrow> [] | Some bs \<Rightarrow> bs ! unat (h mod nbuckets gh))"

text \<open>What inserting one entry and consulting the resize policy does to a well-formed table.\<close>

definition inserted :: "GHash \<Rightarrow> Entry \<Rightarrow> GHash \<Rightarrow> bool" where
  "inserted gh e gh' =
     (ghash_ok gh' \<and> mset (all_entries gh') = add_mset e (mset (all_entries gh))
      \<and> nentries gh' = nentries gh + 1 \<and> entrypool gh' = entrypool gh + 1
      \<and> hashfp gh' = hashfp gh \<and> cmpfp gh' = cmpfp gh \<and> flag gh' = flag gh
      \<and> entry_size gh' = entry_size gh \<and> size_min gh' = size_min gh
      \<and> (nentries gh' \<le> limit_grow gh' \<or> unat (cursize gh') = 26)
      \<and> (flag gh AND GHASH_FLAG_ALLOW_SHRINK \<noteq> 0 \<longrightarrow>
            limit_shrink gh' \<le> nentries gh' \<or> cursize gh' = size_min gh'))"

text \<open>
  The lookup as the specification words it: hash the key, take the chain of the bucket
  the hash selects, and return the first entry of that chain whose cached hash is the
  key's hash and for which the comparison callback answers false.
\<close>

definition first_match :: "GHash \<Rightarrow> ptr \<Rightarrow> Entry option" where
  "first_match gh k =
     (let h = fn_call (hashfp gh) k;
          chain = (case buckets gh of None \<Rightarrow> [] | Some bs \<Rightarrow> bs ! unat (h mod nbuckets gh))
      in find (\<lambda>e. hash e = h \<and> \<not> fn_call (cmpfp gh) k (key e)) chain)"

section \<open>Concrete tables\<close>

text \<open>Tables with pointer hashing, built through the public API from a list of keys.\<close>

fun insert_all :: "bool \<Rightarrow> GHash \<Rightarrow> (ptr \<times> ptr) list \<Rightarrow> error + GHash" where
  "insert_all NDEBUG gh [] = Inr gh"
| "insert_all NDEBUG gh ((k, v) # kvs) =
     bind_err (BLI_ghash_insert NDEBUG gh k v) (\<lambda>gh'. insert_all NDEBUG gh' kvs)"

definition ghash_ptr_of :: "bool \<Rightarrow> (ptr \<times> ptr) list \<Rightarrow> error + GHash" where
  "ghash_ptr_of NDEBUG kvs = bind_err (BLI_ghash_ptr_new NDEBUG) (\<lambda>gh. insert_all NDEBUG gh kvs)"

fun gset_insert_all :: "bool \<Rightarrow> GHash \<Rightarrow> ptr list \<Rightarrow> error + GHash" where
  "gset_insert_all NDEBUG gs [] = Inr gs"
| "gset_insert_all NDEBUG gs (k # ks) =
     bind_err (BLI_gset_insert NDEBUG gs k) (\<lambda>gs'. gset_insert_all NDEBUG gs' ks)"

definition gset_ptr_of :: "bool \<Rightarrow> ptr list \<Rightarrow> error + GHash" where
  "gset_ptr_of NDEBUG ks = bind_err (BLI_gset_ptr_new NDEBUG) (\<lambda>gs. gset_insert_all NDEBUG gs ks)"

text \<open>Scenario S1 of the specification: keys 0x100 and 0x300 with values 0x200 and 0x400.\<close>

definition table_S1 :: GHash where
  "table_S1 = projr (ghash_ptr_of False [(0x100, 0x200), (0x300, 0x400)])"

text \<open>A map in which key 1 is present and mapped to the null pointer.\<close>

definition table_null_value :: GHash where
  "table_null_value = projr (ghash_ptr_of False [(1, NULL)])"

text \<open>
  A map created with a reservation of 100 entries, which sets the floor, and with both
  public flags switched on afterwards.
\<close>

definition table_reserved :: GHash where
  "table_reserved =
     BLI_ghash_flag_set
       (BLI_ghash_flag_set (projr (BLI_ghash_ptr_new_ex False 100)) GHASH_FLAG_ALLOW_SHRINK)
       GHASH_FLAG_ALLOW_DUPES"

text \<open>
  Scenario S5 of the specification: the symmetric difference of the sets \<open>{1,2,3}\<close>,
  \<open>{2,3,4}\<close> and \<open>{3,4,5}\<close>, computed in place on the first one.
\<close>

definition symdiff_S5 :: "bool \<Rightarrow> error + (GHash \<times> event list)" where
  "symdiff_S5 NDEBUG =
     bind_err (gset_ptr_of NDEBUG [1, 2, 3]) (\<lambda>A.
     bind_err (gset_ptr_of NDEBUG [2, 3, 4]) (\<lambda>B.
     bind_err (gset_ptr_of NDEBUG [3, 4, 5]) (\<lambda>C.
       BLI_gset_symmetric_difference NDEBUG None None (Some A) (Some B) [C])))"

text \<open>
  Scenario S4 of the specification: the maps \<open>A = {1 \<mapsto> a, 2 \<mapsto> b}\<close> and
  \<open>B = {2 \<mapsto> B, 3 \<mapsto> c}\<close>; the values are the pointers 0xa, 0xb, 0xB0 and 0xc.
\<close>

definition table_S4_A :: GHash where
  "table_S4_A = projr (ghash_ptr_of False [(1, 0xa), (2, 0xb)])"

definition table_S4_B :: GHash where
  "table_S4_B = projr (ghash_ptr_of False [(2, 0xB0), (3, 0xc)])"

text \<open>The set \<open>{2, 3}\<close>, whose entries have no value slot.\<close>

definition set_2_3 :: GHash where
  "set_2_3 = projr (gset_ptr_of False [2, 3])"

section \<open>The load band\<close>

text \<open>
  The two bounds of the load band on a table: the limits are the ones of the current
  bucket count; \<open>nentries\<close> does not exceed the grow limit unless the cursor is at the
  last step of the schedule (index 26); and \<open>nentries\<close> is not below the shrink limit
  unless \<open>ALLOW_SHRINK\<close> is off or the cursor is at the floor.
\<close>

definition load_ok :: "GHash \<Rightarrow> bool" where
  "load_ok gh =
     (limit_grow gh = GHASH_LIMIT_GROW (nbuckets gh) \<and>
      limit_shrink gh = GHASH_LIMIT_SHRINK (nbuckets gh) \<and>
      (nentries gh \<le> limit_grow gh \<or> unat (cursize gh) = 26) \<and>
      (limit_shrink gh \<le> nentries gh \<or> flag gh AND GHASH_FLAG_ALLOW_SHRINK = 0
         \<or> cursize gh = size_min gh))"

text \<open>The lower bound after a forced shrink, which does not look at the flag.\<close>

definition shrunk_ok :: "GHash \<Rightarrow> bool" where
  "shrunk_ok gh = (limit_shrink gh \<le> nentries gh \<or> cursize gh = size_min gh)"

text \<open>
  A map that allows shrinking and holds the four keys 1 to 4: the fourth insert moved it
  to 11 buckets.
\<close>

definition table_shrinkable :: GHash where
  "table_shrinkable =
     projr (insert_all False
              (BLI_ghash_flag_set (projr (BLI_ghash_ptr_new False)) GHASH_FLAG_ALLOW_SHRINK)
              [(1, 1), (2, 2), (3, 3), (4, 4)])"

lemma bind_err_simps [simp]:
  "bind_err (Inl e) f = Inl e"
  "bind_err (Inr x) f = f x"
  by (simp_all add: bind_err_def)

lemma bind_err_eq_Inr:
  "bind_err m f = Inr y \<longleftrightarrow> (\<exists>x. m = Inr x \<and> f x = Inr y)"
  by (cases m) simp_all

lemma length_hashsizes: "length hashsizes = 27"
  by (simp add: hashsizes_def)

lemma hashsizes_all_nonzero: "list_all (\<lambda>x. x \<noteq> 0) hashsizes"
  by code_simp

lemma hashsizes_nonzero: "i < 27 \<Longrightarrow> hashsizes ! i \<noteq> 0"
proof -
  assume "i < 27"
  then have "i < length hashsizes" by (simp only: length_hashsizes)
  with hashsizes_all_nonzero show ?thesis
    unfolding list_all_length by blast
qed

lemma schedule_steps_all:
  "list_all (\<lambda>(a, b). GHASH_LIMIT_SHRINK b \<le> GHASH_LIMIT_GROW a) (zip hashsizes (tl hashsizes))"
  by code_simp

lemma schedule_step:
  assumes "i < 26"
  shows "GHASH_LIMIT_SHRINK (hashsizes ! Suc i) \<le> GHASH_LIMIT_GROW (hashsizes ! i)"
proof -
  have len: "i < length (zip hashsizes (tl hashsizes))"
    using assms by (simp add: length_hashsizes)
  have nth: "zip hashsizes (tl hashsizes) ! i = (hashsizes ! i, hashsizes ! Suc i)"
    using assms by (simp add: length_hashsizes nth_tl)
  from schedule_steps_all[unfolded list_all_length, rule_format, OF len]
  show ?thesis unfolding nth by simp
qed

lemma schedule_band_all:
  "list_all (\<lambda>a. GHASH_LIMIT_SHRINK a \<le> GHASH_LIMIT_GROW a) hashsizes"
  by code_simp

lemma schedule_band: "i < 27 \<Longrightarrow> GHASH_LIMIT_SHRINK (hashsizes ! i) \<le> GHASH_LIMIT_GROW (hashsizes ! i)"
proof -
  assume "i < 27"
  then have "i < length hashsizes" by (simp only: length_hashsizes)
  with schedule_band_all show ?thesis
    unfolding list_all_length by blast
qed

lemma unat_cursor_succ: "(cs :: uint) < GHASH_MAX_SIZE - 1 \<Longrightarrow> unat (cs + 1) = Suc (unat cs) \<and> unat cs < 26"
proof -
  assume "cs < GHASH_MAX_SIZE - 1"
  then have "cs < 26" by (simp add: GHASH_MAX_SIZE_def)
  then have "unat cs < 26" by (simp add: word_less_nat_alt)
  then show ?thesis by (simp add: unat_word_ariths)
qed

lemma unat_cursor_pred: "(smin :: uint) < cs \<Longrightarrow> Suc (unat (cs - 1)) = unat cs \<and> smin \<le> cs - 1"
proof -
  assume a: "smin < cs"
  then have nz: "cs \<noteq> 0" by (auto simp: word_less_nat_alt)
  then have u: "unat (cs - 1) = unat cs - 1" by (simp add: unat_minus_one)
  have "0 < unat cs" using nz by (simp add: unat_gt_0)
  moreover have "unat smin < unat cs" using a by (simp add: word_less_nat_alt)
  ultimately show ?thesis using u by (simp add: word_le_nat_alt)
qed

lemma grow_loop_props:
  "unat cs < 27 \<Longrightarrow> nb = hashsizes ! unat cs \<Longrightarrow> lg = GHASH_LIMIT_GROW nb \<Longrightarrow>
   grow_loop n (nb, cs, lg) = (nb', cs', lg') \<Longrightarrow>
     unat cs \<le> unat cs' \<and> unat cs' < 27 \<and> nb' = hashsizes ! unat cs' \<and> lg' = GHASH_LIMIT_GROW nb'
     \<and> (n \<le> lg' \<or> unat cs' = 26)
     \<and> (cs' \<noteq> cs \<longrightarrow> GHASH_LIMIT_GROW (hashsizes ! (unat cs' - 1)) < n)"
proof (induction n "(nb, cs, lg)" arbitrary: nb cs lg rule: grow_loop.induct)
  case (1 n nb cs lg)
  show ?case
  proof (cases "n > lg \<and> cs < GHASH_MAX_SIZE - 1")
    case True
    then have s: "unat (cs + 1) = Suc (unat cs)" "unat cs < 26"
      using unat_cursor_succ by auto
    from True "1.prems"(4)
    have g: "grow_loop n (hashsizes ! unat (cs + 1), cs + 1, GHASH_LIMIT_GROW (hashsizes ! unat (cs + 1)))
          = (nb', cs', lg')"
      by (subst (asm) grow_loop.simps) simp
    have lt: "unat (cs + 1) < 27" using s by simp
    have ih: "unat (cs + 1) \<le> unat cs' \<and> unat cs' < 27 \<and> nb' = hashsizes ! unat cs'
        \<and> lg' = GHASH_LIMIT_GROW nb' \<and> (n \<le> lg' \<or> unat cs' = 26)
        \<and> (cs' \<noteq> cs + 1 \<longrightarrow> GHASH_LIMIT_GROW (hashsizes ! (unat cs' - 1)) < n)"
      by (rule "1.hyps"[OF True lt refl refl g])
    from ih have a: "unat (cs + 1) \<le> unat cs'" and b: "unat cs' < 27"
      and c: "nb' = hashsizes ! unat cs'" and d: "lg' = GHASH_LIMIT_GROW nb'"
      and e: "n \<le> lg' \<or> unat cs' = 26"
      and f: "cs' \<noteq> cs + 1 \<longrightarrow> GHASH_LIMIT_GROW (hashsizes ! (unat cs' - 1)) < n"
      by blast+
    have h: "GHASH_LIMIT_GROW (hashsizes ! (unat cs' - 1)) < n"
    proof (cases "cs' = cs + 1")
      case True
      have "lg < n" using \<open>n > lg \<and> cs < GHASH_MAX_SIZE - 1\<close> by simp
      moreover have "unat cs' - 1 = unat cs" using True s by simp
      ultimately show ?thesis using "1.prems"(2,3) by simp
    next
      case False
      then show ?thesis using f by simp
    qed
    have "unat cs \<le> unat cs'" using a s by simp
    with b c d e h show ?thesis by blast
  next
    case False
    then have eq: "nb' = nb" "cs' = cs" "lg' = lg"
      using "1.prems"(4) by (subst (asm) grow_loop.simps, simp)+
    have "n \<le> lg \<or> unat cs = 26"
    proof -
      have "n \<le> lg \<or> \<not> cs < 26" using False by (auto simp: GHASH_MAX_SIZE_def)
      then show ?thesis using "1.prems"(1) by (auto simp: word_less_nat_alt)
    qed
    then show ?thesis using "1.prems"(1,2,3) eq by simp
  qed
qed

lemma shrink_loop_props:
  "unat cs < 27 \<Longrightarrow> smin \<le> cs \<Longrightarrow> nb = hashsizes ! unat cs \<Longrightarrow> ls = GHASH_LIMIT_SHRINK nb \<Longrightarrow>
   shrink_loop n smin (nb, cs, ls) = (nb', cs', ls') \<Longrightarrow>
     smin \<le> cs' \<and> unat cs' \<le> unat cs \<and> nb' = hashsizes ! unat cs' \<and> ls' = GHASH_LIMIT_SHRINK nb'
     \<and> (ls' \<le> n \<or> cs' = smin)
     \<and> (cs' \<noteq> cs \<longrightarrow> n < GHASH_LIMIT_SHRINK (hashsizes ! Suc (unat cs')))"
proof (induction n smin "(nb, cs, ls)" arbitrary: nb cs ls rule: shrink_loop.induct)
  case (1 n smin nb cs ls)
  show ?case
  proof (cases "n < ls \<and> cs > smin")
    case True
    then have s: "Suc (unat (cs - 1)) = unat cs" "smin \<le> cs - 1"
      using unat_cursor_pred by auto
    from True "1.prems"(5)
    have g: "shrink_loop n smin (hashsizes ! unat (cs - 1), cs - 1,
               GHASH_LIMIT_SHRINK (hashsizes ! unat (cs - 1))) = (nb', cs', ls')"
      by (subst (asm) shrink_loop.simps) simp
    have lt: "unat (cs - 1) < 27" using s "1.prems"(1) by simp
    have ih: "smin \<le> cs' \<and> unat cs' \<le> unat (cs - 1) \<and> nb' = hashsizes ! unat cs'
        \<and> ls' = GHASH_LIMIT_SHRINK nb' \<and> (ls' \<le> n \<or> cs' = smin)
        \<and> (cs' \<noteq> cs - 1 \<longrightarrow> n < GHASH_LIMIT_SHRINK (hashsizes ! Suc (unat cs')))"
      by (rule "1.hyps"[OF True lt s(2) refl refl g])
    from ih have a: "smin \<le> cs'" and b: "unat cs' \<le> unat (cs - 1)"
      and c: "nb' = hashsizes ! unat cs'" and d: "ls' = GHASH_LIMIT_SHRINK nb'"
      and e: "ls' \<le> n \<or> cs' = smin"
      and f: "cs' \<noteq> cs - 1 \<longrightarrow> n < GHASH_LIMIT_SHRINK (hashsizes ! Suc (unat cs'))"
      by blast+
    have h: "n < GHASH_LIMIT_SHRINK (hashsizes ! Suc (unat cs'))"
    proof (cases "cs' = cs - 1")
      case True
      have "n < ls" using \<open>n < ls \<and> cs > smin\<close> by simp
      moreover have "Suc (unat cs') = unat cs" using True s by simp
      ultimately show ?thesis using "1.prems"(3,4) by simp
    next
      case False
      then show ?thesis using f by simp
    qed
    have "unat cs' \<le> unat cs" using b s by simp
    with a c d e h show ?thesis by blast
  next
    case False
    then have eq: "nb' = nb" "cs' = cs" "ls' = ls"
      using "1.prems"(5) by (subst (asm) shrink_loop.simps, simp)+
    have "ls \<le> n \<or> cs = smin"
      using False "1.prems"(2) by auto
    then show ?thesis using "1.prems"(1,2,3,4) eq by simp
  qed
qed

lemma distinct_hashsizes: "distinct hashsizes"
  by code_simp

lemma hashsizes_inj: "i < 27 \<Longrightarrow> j < 27 \<Longrightarrow> hashsizes ! i = hashsizes ! j \<Longrightarrow> i = j"
  using distinct_hashsizes by (simp add: nth_eq_iff_index_eq length_hashsizes)

subsection \<open>Placement\<close>

lemma list_all_enumerate:
  "list_all P (enumerate 0 xs) \<longleftrightarrow> (\<forall>i < length xs. P (i, xs ! i))"
  by (simp add: list_all_length nth_enumerate_eq)

lemma buckets_ok_iff:
  "buckets_ok gh \<longleftrightarrow>
     (\<exists>bs. buckets gh = Some bs \<and> nbuckets gh \<noteq> 0 \<and> length bs = unat (nbuckets gh)
        \<and> placed (nbuckets gh) bs)"
proof (cases "buckets gh")
  case None
  then show ?thesis by (simp add: buckets_ok_def)
next
  case (Some bs)
  have "list_all (\<lambda>(i, chain). list_all (\<lambda>e. unat (hash e mod nbuckets gh) = i) chain) (enumerate 0 bs)
      \<longleftrightarrow> placed (nbuckets gh) bs"
    unfolding list_all_enumerate placed_def by (simp add: list_all_iff)
  then show ?thesis using Some by (simp add: buckets_ok_def)
qed

lemma unat_mod_less: "(nb :: uint) \<noteq> 0 \<Longrightarrow> unat (h mod nb) < unat nb"
  by (simp add: unat_mod unat_gt_0)

lemma rehash_entry_length [simp]: "length (rehash_entry nb bs e) = length bs"
  by (simp add: rehash_entry_def Let_def)

lemma foldl_rehash_length [simp]: "length (foldl (rehash_entry nb) bs es) = length bs"
  by (induction es arbitrary: bs) simp_all

lemma mset_concat_push:
  "i < length bs \<Longrightarrow> mset (concat (bs[i := e # bs ! i])) = add_mset e (mset (concat bs))"
proof (induction bs arbitrary: i)
  case Nil
  then show ?case by simp
next
  case (Cons b bs)
  then show ?case by (cases i) simp_all
qed

lemma mset_concat_set:
  "i < length bs \<Longrightarrow> mset (concat (bs[i := c])) + mset (bs ! i) = mset (concat bs) + mset c"
proof (induction bs arbitrary: i)
  case Nil
  then show ?case by simp
next
  case (Cons b bs)
  show ?case
  proof (cases i)
    case 0
    then show ?thesis by simp
  next
    case (Suc j)
    then have "mset (concat (bs[j := c])) + mset (bs ! j) = mset (concat bs) + mset c"
      using Cons by simp
    then show ?thesis using Suc by (simp add: ac_simps)
  qed
qed

lemma rehash_entry_mset:
  "nb \<noteq> 0 \<Longrightarrow> length bs = unat nb \<Longrightarrow>
     mset (concat (rehash_entry nb bs e)) = add_mset e (mset (concat bs))"
  by (simp add: rehash_entry_def Let_def mset_concat_push unat_mod_less)

lemma foldl_rehash_mset:
  "nb \<noteq> 0 \<Longrightarrow> length bs = unat nb \<Longrightarrow>
     mset (concat (foldl (rehash_entry nb) bs es)) = mset es + mset (concat bs)"
  by (induction es arbitrary: bs) (simp_all add: rehash_entry_mset)

lemma placed_push:
  assumes "placed nb bs" "i < length bs" "unat (hash e mod nb) = i"
  shows "placed nb (bs[i := e # bs ! i])"
  unfolding placed_def
proof (intro allI impI ballI)
  fix j x assume j: "j < length (bs[i := e # bs ! i])" and x: "x \<in> set (bs[i := e # bs ! i] ! j)"
  show "unat (hash x mod nb) = j"
  proof (cases "j = i")
    case True
    then have "x = e \<or> x \<in> set (bs ! i)" using x assms(2) by simp
    then show ?thesis using assms True by (auto simp: placed_def)
  next
    case False
    then have "x \<in> set (bs ! j)" using x by simp
    then show ?thesis using assms(1) j by (simp add: placed_def)
  qed
qed

lemma rehash_entry_placed:
  "nb \<noteq> 0 \<Longrightarrow> length bs = unat nb \<Longrightarrow> placed nb bs \<Longrightarrow> placed nb (rehash_entry nb bs e)"
  by (simp add: rehash_entry_def Let_def placed_push unat_mod_less)

lemma foldl_rehash_placed:
  "nb \<noteq> 0 \<Longrightarrow> length bs = unat nb \<Longrightarrow> placed nb bs \<Longrightarrow> placed nb (foldl (rehash_entry nb) bs es)"
  by (induction es arbitrary: bs) (simp_all add: rehash_entry_placed)

lemma placed_replicate: "placed nb (replicate n [])"
  by (simp add: placed_def)

lemma ghash_entries_ok: "buckets_ok gh \<Longrightarrow> ghash_entries gh = Inr (all_entries gh)"
  by (auto simp: buckets_ok_iff ghash_entries_def all_entries_def)

subsection \<open>Resize\<close>

lemma all_entries_None [simp]: "buckets gh = None \<Longrightarrow> all_entries gh = []"
  by (simp add: all_entries_def)

lemma all_entries_Some [simp]: "buckets gh = Some bs \<Longrightarrow> all_entries gh = concat bs"
  by (simp add: all_entries_def)

lemma resize_props:
  assumes nb: "nb \<noteq> 0"
    and ok: "buckets gh = None \<or> buckets_ok gh"
    and ne: "nbuckets gh \<noteq> nb \<or> buckets gh = None"
  shows "\<exists>bs. ghash_resize_buckets N gh nb = Inr (gh\<lparr>nbuckets := nb, buckets := Some bs\<rparr>)
            \<and> length bs = unat nb \<and> placed nb bs \<and> mset (concat bs) = mset (all_entries gh)"
proof (cases "buckets gh")
  case None
  then have "ghash_resize_buckets N gh nb = Inr (gh\<lparr>nbuckets := nb, buckets := Some (replicate (unat nb) [])\<rparr>)"
    by (simp add: ghash_resize_buckets_def BLI_assert_def)
  then show ?thesis using None by (auto simp: placed_replicate)
next
  case (Some old)
  then have bok: "buckets_ok gh" using ok by simp
  let ?new = "foldl (rehash_entry nb) (replicate (unat nb) []) (all_entries gh)"
  have "ghash_resize_buckets N gh nb = Inr (gh\<lparr>nbuckets := nb, buckets := Some ?new\<rparr>)"
    using Some ne nb by (simp add: ghash_resize_buckets_def BLI_assert_def ghash_entries_ok[OF bok])
  moreover have "length ?new = unat nb" by simp
  moreover have "placed nb ?new"
    by (rule foldl_rehash_placed) (simp_all add: nb placed_replicate)
  moreover have "mset (concat ?new) = mset (all_entries gh)"
    using foldl_rehash_mset[of nb "replicate (unat nb) []" "all_entries gh"] nb by simp
  ultimately show ?thesis by blast
qed

subsection \<open>Expanding and shrinking\<close>

lemma expand_props:
  assumes rok: "resize_ok gh" and ok: "buckets gh = None \<or> buckets_ok gh"
  shows "\<exists>gh'. ghash_expand_buckets N gh n u f = Inr gh'
           \<and> expand_post gh n (f \<or> flag gh AND GHASH_FLAG_ALLOW_SHRINK \<noteq> 0) gh'
           \<and> (buckets gh = None \<and> u \<longrightarrow> size_min gh' = cursize gh')
           \<and> (\<not> u \<longrightarrow> size_min gh' = size_min gh)"
proof (cases "buckets gh \<noteq> None \<and> n < limit_grow gh \<and> n > limit_shrink gh")
  case True
  then have "ghash_expand_buckets N gh n u f = Inr gh"
    by (simp add: ghash_expand_buckets_def)
  moreover have "buckets_ok gh" using True ok by auto
  ultimately show ?thesis using rok True by (auto simp: expand_post_def)
next
  case False
  let ?allow = "f \<or> flag gh AND GHASH_FLAG_ALLOW_SHRINK \<noteq> 0"
  from rok have c27: "unat (cursize gh) < 27" and smin: "size_min gh \<le> cursize gh"
    and nbh: "nbuckets gh = hashsizes ! unat (cursize gh)"
    and lgh: "limit_grow gh = GHASH_LIMIT_GROW (nbuckets gh)"
    and lsh: "limit_shrink gh = GHASH_LIMIT_SHRINK (nbuckets gh)"
    by (simp_all add: resize_ok_def)
  obtain nb1 cs1 lg1 where g: "grow_loop n (nbuckets gh, cursize gh, limit_grow gh) = (nb1, cs1, lg1)"
    by (metis prod_cases3)
  from grow_loop_props[OF c27 nbh lgh g]
  have g1: "unat (cursize gh) \<le> unat cs1" and g2: "unat cs1 < 27" and g3: "nb1 = hashsizes ! unat cs1"
    and g4: "lg1 = GHASH_LIMIT_GROW nb1" and g5: "n \<le> lg1 \<or> unat cs1 = 26"
    and g6: "cs1 \<noteq> cursize gh \<longrightarrow> GHASH_LIMIT_GROW (hashsizes ! (unat cs1 - 1)) < n"
    by blast+
  obtain nb2 cs2 ls2 where s: "(if ?allow then shrink_loop n (size_min gh) (nb1, cs1, limit_shrink gh)
          else (nb1, cs1, limit_shrink gh)) = (nb2, cs2, ls2)"
    by (metis prod_cases3)
  have smin1: "size_min gh \<le> cs1" using smin g1 by (simp add: word_le_nat_alt)
  have S: "size_min gh \<le> cs2 \<and> unat cs2 < 27 \<and> nb2 = hashsizes ! unat cs2
         \<and> (cs2 = cursize gh \<longrightarrow> ls2 = limit_shrink gh \<and> lg1 = limit_grow gh)
         \<and> (cs2 \<noteq> cursize gh \<longrightarrow> GHASH_LIMIT_SHRINK nb2 \<le> n \<or> cs2 = size_min gh)
         \<and> (?allow \<longrightarrow> cs2 = cursize gh \<longrightarrow> ls2 \<le> n \<or> cs2 = size_min gh)
         \<and> (n \<le> GHASH_LIMIT_GROW nb2 \<or> unat cs2 = 26)"
  proof (cases "cs1 = cursize gh")
    case True
    then have e1: "nb1 = nbuckets gh" "lg1 = limit_grow gh" using g3 g4 nbh lgh by simp_all
    show ?thesis
    proof (cases ?allow)
      case allow: True
      then have sl: "shrink_loop n (size_min gh) (nbuckets gh, cursize gh, limit_shrink gh) = (nb2, cs2, ls2)"
        using s True e1 by simp
      from shrink_loop_props[OF c27 smin nbh lsh sl]
      have s1: "size_min gh \<le> cs2" and s2: "unat cs2 \<le> unat (cursize gh)"
        and s3: "nb2 = hashsizes ! unat cs2" and s4: "ls2 = GHASH_LIMIT_SHRINK nb2"
        and s5: "ls2 \<le> n \<or> cs2 = size_min gh"
        and s6: "cs2 \<noteq> cursize gh \<longrightarrow> n < GHASH_LIMIT_SHRINK (hashsizes ! Suc (unat cs2))"
        by blast+
      have up: "n \<le> GHASH_LIMIT_GROW nb2 \<or> unat cs2 = 26"
      proof (cases "cs2 = cursize gh")
        case True
        then show ?thesis using g5 e1 lgh s3 nbh \<open>cs1 = cursize gh\<close> by simp
      next
        case False
        then have lt: "n < GHASH_LIMIT_SHRINK (hashsizes ! Suc (unat cs2))" using s6 by simp
        have "unat cs2 \<noteq> unat (cursize gh)" using False by (simp add: word_unat_eq_iff)
        then have "unat cs2 < 26" using s2 c27 by simp
        from schedule_step[OF this] lt have "n \<le> GHASH_LIMIT_GROW (hashsizes ! unat cs2)" by simp
        then show ?thesis using s3 by simp
      qed
      have "cs2 = cursize gh \<longrightarrow> ls2 = limit_shrink gh" using s4 s3 lsh nbh by simp
      then show ?thesis using s1 s2 s3 s4 s5 up c27 e1 by auto
    next
      case noallow: False
      then have "nb2 = nb1" "cs2 = cs1" "ls2 = limit_shrink gh" using s by simp_all
      then show ?thesis using True e1 smin c27 nbh g5 lgh noallow by simp
    qed
  next
    case moved: False
    then have gt: "GHASH_LIMIT_GROW (hashsizes ! (unat cs1 - 1)) < n" using g6 by simp
    have ne: "unat cs1 \<noteq> unat (cursize gh)" using moved by (simp add: word_unat_eq_iff)
    then have pos: "unat (cursize gh) < unat cs1" using g1 by simp
    have "\<not> n \<le> limit_grow gh"
    proof
      assume le: "n \<le> limit_grow gh"
      then have "\<not> limit_grow gh < n" by simp
      then have "grow_loop n (nbuckets gh, cursize gh, limit_grow gh) = (nbuckets gh, cursize gh, limit_grow gh)"
        by (subst grow_loop.simps) simp
      then show False using g moved by simp
    qed
    then have "limit_grow gh < n" by simp
    moreover have "limit_shrink gh \<le> limit_grow gh"
      using schedule_band[OF c27] lgh lsh nbh by simp
    ultimately have nosh: "\<not> n < limit_shrink gh" by simp
    have "shrink_loop n (size_min gh) (nb1, cs1, limit_shrink gh) = (nb1, cs1, limit_shrink gh)"
      using nosh by (subst shrink_loop.simps) simp
    then have e2: "nb2 = nb1" "cs2 = cs1" "ls2 = limit_shrink gh" using s by (simp_all split: if_splits)
    have "unat cs1 - 1 < 26" using g2 pos by simp
    from schedule_step[OF this] have "GHASH_LIMIT_SHRINK (hashsizes ! unat cs1) \<le> GHASH_LIMIT_GROW (hashsizes ! (unat cs1 - 1))"
      using pos by simp
    then have "GHASH_LIMIT_SHRINK nb1 \<le> n" using gt g3 by simp
    then show ?thesis using e2 smin1 g2 g3 g4 g5 moved by simp
  qed
  then have S1: "size_min gh \<le> cs2" and S2: "unat cs2 < 27" and S3: "nb2 = hashsizes ! unat cs2"
    and S4: "cs2 = cursize gh \<longrightarrow> ls2 = limit_shrink gh \<and> lg1 = limit_grow gh"
    and S5: "cs2 \<noteq> cursize gh \<longrightarrow> GHASH_LIMIT_SHRINK nb2 \<le> n \<or> cs2 = size_min gh"
    and S6: "?allow \<longrightarrow> cs2 = cursize gh \<longrightarrow> ls2 \<le> n \<or> cs2 = size_min gh"
    and S7: "n \<le> GHASH_LIMIT_GROW nb2 \<or> unat cs2 = 26"
    by blast+
  define gh1 where "gh1 = gh\<lparr>cursize := cs2, limit_grow := lg1, limit_shrink := ls2\<rparr>"
  define gh2 where "gh2 = (if u then gh1\<lparr>size_min := cs2\<rparr> else gh1)"
  define gh3 where "gh3 = gh2\<lparr>limit_grow := GHASH_LIMIT_GROW nb2, limit_shrink := GHASH_LIMIT_SHRINK nb2\<rparr>"
  have e: "ghash_expand_buckets N gh n u f =
      (if nb2 = nbuckets gh \<and> buckets gh \<noteq> None then Inr gh2 else ghash_resize_buckets N gh3 nb2)"
    by (simp only: ghash_expand_buckets_def False if_False Let_def g s prod.case
          gh1_def gh2_def gh3_def)
  have nbeq: "nb2 = nbuckets gh \<longleftrightarrow> cs2 = cursize gh"
    using hashsizes_inj[OF S2 c27] S3 nbh by (auto simp: word_unat_eq_iff)
  show ?thesis
  proof (cases "nb2 = nbuckets gh \<and> buckets gh \<noteq> None")
    case True
    then have cs: "cs2 = cursize gh" using nbeq by simp
    then have "ls2 = limit_shrink gh" "lg1 = limit_grow gh" using S4 by simp_all
    then have gh1: "gh1 = gh" using cs by (simp add: gh1_def)
    have r: "ghash_expand_buckets N gh n u f = Inr gh2" using e True by simp
    have bok: "buckets_ok gh" using True ok by auto
    have "expand_post gh n ?allow gh2"
      using rok bok S1 S6 S7 cs gh1 True lsh lgh \<open>ls2 = limit_shrink gh\<close>
      by (auto simp: expand_post_def gh2_def resize_ok_def buckets_ok_iff all_entries_def)
    moreover have "buckets gh = None \<and> u \<longrightarrow> size_min gh2 = cursize gh2" using True by auto
    moreover have "\<not> u \<longrightarrow> size_min gh2 = size_min gh" by (simp add: gh2_def gh1)
    ultimately show ?thesis using r by blast
  next
    case False
    have r: "ghash_expand_buckets N gh n u f = ghash_resize_buckets N gh3 nb2"
      by (simp only: e False if_False)
    have nb0: "nb2 \<noteq> 0" using hashsizes_nonzero[OF S2] S3 by simp
    have b3: "buckets gh3 = buckets gh" "nbuckets gh3 = nbuckets gh"
      by (simp_all add: gh3_def gh2_def gh1_def)
    have ok3: "buckets gh3 = None \<or> buckets_ok gh3" using ok b3 by (auto simp: buckets_ok_iff)
    have ne3: "nbuckets gh3 \<noteq> nb2 \<or> buckets gh3 = None" using False b3 by auto
    from resize_props[OF nb0 ok3 ne3, of N]
    obtain bs where rs: "ghash_resize_buckets N gh3 nb2 = Inr (gh3\<lparr>nbuckets := nb2, buckets := Some bs\<rparr>)"
      and len: "length bs = unat nb2" and pl: "placed nb2 bs"
      and ms: "mset (concat bs) = mset (all_entries gh3)"
      by blast
    let ?g = "gh3\<lparr>nbuckets := nb2, buckets := Some bs\<rparr>"
    have ae: "all_entries gh3 = all_entries gh" using b3 by (simp add: all_entries_def)
    have lower2: "GHASH_LIMIT_SHRINK nb2 \<le> n \<or> cs2 = size_min ?g \<or> cs2 = cursize gh"
      using S5 by (auto simp: gh3_def gh2_def gh1_def)
    have lower: "?allow \<longrightarrow> GHASH_LIMIT_SHRINK nb2 \<le> n \<or> cs2 = size_min ?g"
    proof (cases "cs2 = cursize gh")
      case True
      then have "?allow \<longrightarrow> ls2 \<le> n \<or> cs2 = size_min gh" using S6 by simp
      moreover have "ls2 = GHASH_LIMIT_SHRINK nb2" using True S4 lsh nbeq by simp
      ultimately show ?thesis by (auto simp: gh3_def gh2_def gh1_def)
    next
      case False
      then show ?thesis using S5 by (auto simp: gh3_def gh2_def gh1_def)
    qed
    have "expand_post gh n ?allow ?g"
      unfolding expand_post_def
      using S1 S2 S3 S7 nb0 len pl ms ae lower lower2
      by (auto simp: resize_ok_def buckets_ok_iff gh3_def gh2_def gh1_def)
    moreover have "u \<longrightarrow> size_min ?g = cursize ?g" by (simp add: gh3_def gh2_def gh1_def)
    moreover have "\<not> u \<longrightarrow> size_min ?g = size_min gh" by (simp add: gh3_def gh2_def gh1_def)
    ultimately show ?thesis using r rs by auto
  qed
qed

subsection \<open>Chain walks\<close>

lemma chain_walk_None: "chain_walk P xs = None \<longleftrightarrow> (\<forall>x \<in> set xs. \<not> P x)"
  by (induction xs) (auto split: option.splits)

lemma chain_walk_Some:
  "chain_walk P xs = Some (pre, x, post) \<Longrightarrow> xs = pre @ x # post \<and> P x \<and> (\<forall>y \<in> set pre. \<not> P y)"
proof (induction xs arbitrary: pre)
  case Nil
  then show ?case by simp
next
  case (Cons a xs)
  show ?case
  proof (cases "P a")
    case True
    then show ?thesis using Cons.prems by simp
  next
    case False
    then obtain pre' where w: "chain_walk P xs = Some (pre', x, post)" and p: "pre = a # pre'"
      using Cons.prems by (auto split: option.splits)
    from Cons.IH[OF w] show ?thesis using p False by simp
  qed
qed

lemma chain_walk_find: "map_option (\<lambda>(pre, x, post). x) (chain_walk P xs) = find P xs"
  by (induction xs) (auto split: option.splits)

lemma chain_walk_append:
  "\<forall>y \<in> set pre. \<not> P y \<Longrightarrow> P x \<Longrightarrow> chain_walk P (pre @ x # post) = Some (pre, x, post)"
  by (induction pre) simp_all

subsection \<open>Bucket access on a well-formed table\<close>

lemma bucket_hash_ok:
  "buckets_ok gh \<Longrightarrow> ghash_bucket_hash gh h = Inr (h mod nbuckets gh)"
  by (auto simp: buckets_ok_iff ghash_bucket_hash_def)

lemma bucket_index_less:
  "buckets_ok gh \<Longrightarrow> buckets gh = Some bs \<Longrightarrow> unat (h mod nbuckets gh) < length bs"
  by (auto simp: buckets_ok_iff unat_mod_less)

lemma bucket_get_ok:
  "buckets_ok gh \<Longrightarrow> buckets gh = Some bs \<Longrightarrow>
     bucket_get gh (h mod nbuckets gh) = Inr (bs ! unat (h mod nbuckets gh))"
  by (simp add: bucket_get_def bucket_index_less)

lemma bucket_set_ok:
  "buckets_ok gh \<Longrightarrow> buckets gh = Some bs \<Longrightarrow>
     bucket_set gh (h mod nbuckets gh) c = Inr (gh\<lparr>buckets := Some (bs[unat (h mod nbuckets gh) := c])\<rparr>)"
  by (simp add: bucket_set_def bucket_index_less)

lemma lookup_entry_ex_ok:
  "buckets_ok gh \<Longrightarrow>
     ghash_lookup_entry_ex gh k h (h mod nbuckets gh) = Inr (chain_walk (key_match gh k h) (chain_of gh h))"
  by (auto simp: ghash_lookup_entry_ex_def chain_of_def bucket_get_ok buckets_ok_iff)

lemma lookup_entry_ok:
  "buckets_ok gh \<Longrightarrow>
     ghash_lookup_entry gh k =
       Inr (chain_walk (key_match gh k (ghash_keyhash gh k)) (chain_of gh (ghash_keyhash gh k)))"
  by (simp add: ghash_lookup_entry_def Let_def bucket_hash_ok lookup_entry_ex_ok)

lemma chain_of_subset: "buckets_ok gh \<Longrightarrow> set (chain_of gh h) \<subseteq> set (all_entries gh)"
proof -
  assume ok: "buckets_ok gh"
  then obtain bs where bs: "buckets gh = Some bs" by (auto simp: buckets_ok_iff)
  have "bs ! unat (h mod nbuckets gh) \<in> set bs"
    using bucket_index_less[OF ok bs] by simp
  then show ?thesis using bs by (auto simp: chain_of_def all_entries_def)
qed

lemma entry_in_its_chain:
  assumes ok: "buckets_ok gh" and e: "e \<in> set (all_entries gh)"
  shows "e \<in> set (chain_of gh (hash e))"
proof -
  from ok obtain bs where bs: "buckets gh = Some bs" and len: "length bs = unat (nbuckets gh)"
    and pl: "placed (nbuckets gh) bs"
    by (auto simp: buckets_ok_iff)
  from e bs obtain c where c: "c \<in> set bs" "e \<in> set c" by (auto simp: all_entries_def)
  then obtain i where i: "i < length bs" "bs ! i = c" by (auto simp: in_set_conv_nth)
  then have "unat (hash e mod nbuckets gh) = i" using pl c by (auto simp: placed_def)
  then show ?thesis using bs i c by (simp add: chain_of_def)
qed

lemma chain_match_iff:
  assumes ok: "buckets_ok gh"
  shows "(\<exists>e \<in> set (chain_of gh h). key_match gh k h e) \<longleftrightarrow> (\<exists>e \<in> set (all_entries gh). key_match gh k h e)"
proof
  assume "\<exists>e \<in> set (chain_of gh h). key_match gh k h e"
  then show "\<exists>e \<in> set (all_entries gh). key_match gh k h e"
    using chain_of_subset[OF ok] by blast
next
  assume "\<exists>e \<in> set (all_entries gh). key_match gh k h e"
  then obtain e where e: "e \<in> set (all_entries gh)" "key_match gh k h e" by blast
  then have "hash e = h" by (simp add: key_match_def)
  then show "\<exists>e \<in> set (chain_of gh h). key_match gh k h e"
    using entry_in_its_chain[OF ok e(1)] e(2) by blast
qed

subsection \<open>Linking an entry\<close>

lemma link_entry_ok:
  assumes ok: "buckets_ok gh" and h: "hash e = h"
  shows "\<exists>gh'. link_entry gh (h mod nbuckets gh) e = Inr gh' \<and> buckets_ok gh'
           \<and> mset (all_entries gh') = add_mset e (mset (all_entries gh))
           \<and> (\<exists>bs. gh' = gh\<lparr>buckets := Some bs\<rparr>)"
proof -
  from ok obtain bs where bs: "buckets gh = Some bs" and nz: "nbuckets gh \<noteq> 0"
    and len: "length bs = unat (nbuckets gh)" and pl: "placed (nbuckets gh) bs"
    by (auto simp: buckets_ok_iff)
  let ?i = "unat (h mod nbuckets gh)"
  let ?bs = "bs[?i := e # bs ! ?i]"
  have i: "?i < length bs" using bucket_index_less[OF ok bs] .
  have r: "link_entry gh (h mod nbuckets gh) e = Inr (gh\<lparr>buckets := Some ?bs\<rparr>)"
    by (simp add: link_entry_def bucket_get_ok[OF ok bs] bucket_set_ok[OF ok bs])
  have "placed (nbuckets gh) ?bs" using placed_push[OF pl i] h by simp
  then have "buckets_ok (gh\<lparr>buckets := Some ?bs\<rparr>)" using nz len by (simp add: buckets_ok_iff)
  moreover have "mset (all_entries (gh\<lparr>buckets := Some ?bs\<rparr>)) = add_mset e (mset (all_entries gh))"
    using bs i by (simp add: all_entries_def mset_concat_push)
  ultimately show ?thesis using r by blast
qed

lemma placed_update_subset:
  assumes "placed nb bs" "i < length bs" "set c \<subseteq> set (bs ! i)"
  shows "placed nb (bs[i := c])"
  unfolding placed_def
proof (intro allI impI ballI)
  fix j x assume j: "j < length (bs[i := c])" and x: "x \<in> set (bs[i := c] ! j)"
  show "unat (hash x mod nb) = j"
  proof (cases "j = i")
    case True
    then have "x \<in> set (bs ! i)" using x assms(2,3) by auto
    then show ?thesis using assms(1,2) True by (simp add: placed_def)
  next
    case False
    then have "x \<in> set (bs ! j)" using x by simp
    then show ?thesis using assms(1) j by (simp add: placed_def)
  qed
qed

lemma chain_set_ok:
  assumes ok: "buckets_ok gh" and bs: "buckets gh = Some bs"
    and sub: "set c \<subseteq> set (chain_of gh h)"
  shows "bucket_set gh (h mod nbuckets gh) c = Inr (gh\<lparr>buckets := Some (bs[unat (h mod nbuckets gh) := c])\<rparr>)"
    and "buckets_ok (gh\<lparr>buckets := Some (bs[unat (h mod nbuckets gh) := c])\<rparr>)"
    and "mset (all_entries (gh\<lparr>buckets := Some (bs[unat (h mod nbuckets gh) := c])\<rparr>)) + mset (chain_of gh h)
           = mset (all_entries gh) + mset c"
proof -
  from ok bs have nz: "nbuckets gh \<noteq> 0" and len: "length bs = unat (nbuckets gh)"
    and pl: "placed (nbuckets gh) bs"
    by (auto simp: buckets_ok_iff)
  let ?i = "unat (h mod nbuckets gh)"
  have i: "?i < length bs" using bucket_index_less[OF ok bs] .
  show "bucket_set gh (h mod nbuckets gh) c = Inr (gh\<lparr>buckets := Some (bs[?i := c])\<rparr>)"
    by (rule bucket_set_ok[OF ok bs])
  have "set c \<subseteq> set (bs ! ?i)" using sub bs by (simp add: chain_of_def)
  from placed_update_subset[OF pl i this]
  show "buckets_ok (gh\<lparr>buckets := Some (bs[?i := c])\<rparr>)" using nz len by (simp add: buckets_ok_iff)
  show "mset (all_entries (gh\<lparr>buckets := Some (bs[?i := c])\<rparr>)) + mset (chain_of gh h)
           = mset (all_entries gh) + mset c"
    using mset_concat_set[OF i, of c] bs by (simp add: all_entries_def chain_of_def)
qed

lemma key_match_cmpfp: "cmpfp g = cmpfp g' \<Longrightarrow> key_match g = key_match g'"
  by (intro ext) (simp add: key_match_def)

lemma key_match_entrypool [simp]: "key_match (gh\<lparr>entrypool := p\<rparr>) = key_match gh"
  by (rule key_match_cmpfp) simp

lemma key_match_buckets [simp]: "key_match (gh\<lparr>buckets := p\<rparr>) = key_match gh"
  by (rule key_match_cmpfp) simp

lemma key_match_nentries [simp]: "key_match (gh\<lparr>nentries := p\<rparr>) = key_match gh"
  by (rule key_match_cmpfp) simp

lemma lookup_entry_entrypool [simp]:
  "ghash_lookup_entry (gh\<lparr>entrypool := p\<rparr>) k = ghash_lookup_entry gh k"
  by (simp add: ghash_lookup_entry_def ghash_keyhash_def ghash_bucket_hash_def
      ghash_lookup_entry_ex_def bucket_get_def Let_def
      cong: option.case_cong if_cong)

lemma buckets_ok_entrypool [simp]: "buckets_ok (gh\<lparr>entrypool := p\<rparr>) = buckets_ok gh"
  by (simp add: buckets_ok_iff)

lemma resize_ok_entrypool [simp]: "resize_ok (gh\<lparr>entrypool := p\<rparr>) = resize_ok gh"
  by (simp add: resize_ok_def)

lemma resize_ok_nentries [simp]: "resize_ok (gh\<lparr>nentries := p\<rparr>) = resize_ok gh"
  by (simp add: resize_ok_def)

lemma buckets_ok_nentries [simp]: "buckets_ok (gh\<lparr>nentries := p\<rparr>) = buckets_ok gh"
  by (simp add: buckets_ok_iff)

lemma resize_ok_buckets [simp]: "resize_ok (gh\<lparr>buckets := p\<rparr>) = resize_ok gh"
  by (simp add: resize_ok_def)

lemma all_entries_entrypool [simp]: "all_entries (gh\<lparr>entrypool := p\<rparr>) = all_entries gh"
  by (simp add: all_entries_def)

lemma all_entries_nentries [simp]: "all_entries (gh\<lparr>nentries := p\<rparr>) = all_entries gh"
  by (simp add: all_entries_def)

lemma link_expand_ok:
  assumes ok: "ghash_ok gh" and h: "hash e = h"
  shows "\<exists>gh1 gh'. link_entry (BLI_mempool_alloc gh) (h mod nbuckets gh) e = Inr gh1
           \<and> ghash_expand_buckets N (gh1\<lparr>nentries := nentries gh1 + 1\<rparr>) (nentries gh1 + 1) False False = Inr gh'
           \<and> inserted gh e gh'"
proof -
  let ?g0 = "BLI_mempool_alloc gh"
  have ok0: "buckets_ok ?g0" "resize_ok ?g0" "nbuckets ?g0 = nbuckets gh"
    using ok by (simp_all add: ghash_ok_def BLI_mempool_alloc_def)
  from link_entry_ok[OF ok0(1) h] ok0(3)
  obtain gh1 bs where l: "link_entry ?g0 (h mod nbuckets gh) e = Inr gh1" and b1: "buckets_ok gh1"
    and m1: "mset (all_entries gh1) = add_mset e (mset (all_entries ?g0))"
    and g1: "gh1 = ?g0\<lparr>buckets := Some bs\<rparr>"
    by auto
  let ?g2 = "gh1\<lparr>nentries := nentries gh1 + 1\<rparr>"
  have r2: "resize_ok ?g2" using ok0(2) g1 by simp
  have b2: "buckets ?g2 = None \<or> buckets_ok ?g2" using b1 by simp
  from expand_props[OF r2 b2, of N "nentries gh1 + 1" False False]
  obtain gh' where e: "ghash_expand_buckets N ?g2 (nentries gh1 + 1) False False = Inr gh'"
    and p: "expand_post ?g2 (nentries gh1 + 1) (False \<or> flag ?g2 AND GHASH_FLAG_ALLOW_SHRINK \<noteq> 0) gh'"
    and sm: "size_min gh' = size_min ?g2"
    by auto
  have "inserted gh e gh'"
    using p m1 g1 sm unfolding inserted_def expand_post_def ghash_ok_def
    by (simp add: BLI_mempool_alloc_def)
  then show ?thesis using l e by blast
qed

lemma fresh_entry_filled [simp]:
  "fresh_entry\<lparr>hash := h, key := k, val := Some v\<rparr> = \<lparr>hash = h, key = k, val = Some v\<rparr>"
  "fresh_entry\<lparr>hash := h, key := k\<rparr> = \<lparr>hash = h, key = k, val = None\<rparr>"
  by (simp_all add: fresh_entry_def)

lemma insert_ex_ok:
  assumes ok: "ghash_ok gh"
    and dup: "NDEBUG \<or> flag gh AND GHASH_FLAG_ALLOW_DUPES \<noteq> 0 \<or> ghash_lookup_entry gh k = Inr None"
    and notset: "NDEBUG \<or> flag gh AND GHASH_FLAG_IS_SET = 0"
  shows "\<exists>gh'. ghash_insert_ex NDEBUG gh k v h (h mod nbuckets gh) = Inr gh'
           \<and> inserted gh \<lparr>hash = h, key = k, val = Some v\<rparr> gh'"
proof -
  have a1: "assert_no_dupes NDEBUG (BLI_mempool_alloc gh) k = Inr ()"
    using dup by (auto simp: assert_no_dupes_def BLI_mempool_alloc_def BLI_ghash_haskey_def BLI_assert_def)
  have a2: "IS_GHASH_ASSERT NDEBUG (BLI_mempool_alloc gh) = Inr ()"
    using notset by (auto simp: IS_GHASH_ASSERT_def BLI_mempool_alloc_def BLI_assert_def)
  from link_expand_ok[OF ok, of "\<lparr>hash = h, key = k, val = Some v\<rparr>" h NDEBUG] 
  obtain gh1 gh' where "link_entry (BLI_mempool_alloc gh) (h mod nbuckets gh) \<lparr>hash = h, key = k, val = Some v\<rparr> = Inr gh1"
    "ghash_expand_buckets NDEBUG (gh1\<lparr>nentries := nentries gh1 + 1\<rparr>) (nentries gh1 + 1) False False = Inr gh'"
    "inserted gh \<lparr>hash = h, key = k, val = Some v\<rparr> gh'"
    by auto
  then show ?thesis
    using a1 a2 by (simp add: ghash_insert_ex_def Let_def)
qed

lemma haskey_ok:
  "buckets_ok gh \<Longrightarrow> BLI_ghash_haskey gh k =
     Inr (chain_walk (key_match gh k (ghash_keyhash gh k)) (chain_of gh (ghash_keyhash gh k)) \<noteq> None)"
  by (simp add: BLI_ghash_haskey_def lookup_entry_ok)

lemma remove_ex_ok:
  assumes ok: "ghash_ok gh"
  shows "chain_walk (key_match gh k h) (chain_of gh h) = None \<Longrightarrow>
           ghash_remove_ex N gh k kf vf h (h mod nbuckets gh) = Inr (None, gh, [])"
    and "chain_walk (key_match gh k h) (chain_of gh h) = Some (pre, e, post) \<Longrightarrow>
           \<exists>gh'. ghash_remove_ex N gh k kf vf h (h mod nbuckets gh)
                    = Inr (Some e, gh', call_free kf (Some (key e)) @ call_free vf (val e))
              \<and> ghash_ok gh' \<and> add_mset e (mset (all_entries gh')) = mset (all_entries gh)
              \<and> nentries gh' = nentries gh - 1 \<and> entrypool gh' = entrypool gh
              \<and> hashfp gh' = hashfp gh \<and> cmpfp gh' = cmpfp gh \<and> flag gh' = flag gh
              \<and> entry_size gh' = entry_size gh \<and> size_min gh' = size_min gh
              \<and> (nentries gh' \<le> limit_grow gh' \<or> unat (cursize gh') = 26)
              \<and> (flag gh AND GHASH_FLAG_ALLOW_SHRINK \<noteq> 0 \<longrightarrow>
                    limit_shrink gh' \<le> nentries gh' \<or> cursize gh' = size_min gh')"
proof -
  have bok: "buckets_ok gh" and rok: "resize_ok gh" using ok by (simp_all add: ghash_ok_def)
  from bok obtain bs where bs: "buckets gh = Some bs" by (auto simp: buckets_ok_iff)
  have get: "bucket_get gh (h mod nbuckets gh) = Inr (chain_of gh h)"
    using bucket_get_ok[OF bok bs] bs by (simp add: chain_of_def)
  {
    assume "chain_walk (key_match gh k h) (chain_of gh h) = None"
    then show "ghash_remove_ex N gh k kf vf h (h mod nbuckets gh) = Inr (None, gh, [])"
      by (simp add: ghash_remove_ex_def get)
  }
  {
    assume w: "chain_walk (key_match gh k h) (chain_of gh h) = Some (pre, e, post)"
    from chain_walk_Some[OF w] have ch: "chain_of gh h = pre @ e # post" by simp
    then have sub: "set (pre @ post) \<subseteq> set (chain_of gh h)" by auto
    let ?g1 = "gh\<lparr>buckets := Some (bs[unat (h mod nbuckets gh) := pre @ post])\<rparr>"
    note cs = chain_set_ok[OF bok bs sub]
    let ?g2 = "?g1\<lparr>nentries := nentries ?g1 - 1\<rparr>"
    have r2: "resize_ok ?g2" using rok by simp
    have b2: "buckets ?g2 = None \<or> buckets_ok ?g2" using cs(2) by simp
    from expand_props[OF r2 b2, of N "nentries ?g1 - 1" False False]
    obtain gh' where e: "ghash_expand_buckets N ?g2 (nentries ?g1 - 1) False False = Inr gh'"
      and p: "expand_post ?g2 (nentries ?g1 - 1) (False \<or> flag ?g2 AND GHASH_FLAG_ALLOW_SHRINK \<noteq> 0) gh'"
      and sm: "size_min gh' = size_min ?g2"
      by auto
    have m: "add_mset e (mset (all_entries ?g1)) = mset (all_entries gh)"
      using cs(3) ch by simp
    have "ghash_remove_ex N gh k kf vf h (h mod nbuckets gh)
                    = Inr (Some e, gh', call_free kf (Some (key e)) @ call_free vf (val e))"
      using w e cs(1) by (simp add: ghash_remove_ex_def get)
    moreover have "ghash_ok gh' \<and> add_mset e (mset (all_entries gh')) = mset (all_entries gh)
              \<and> nentries gh' = nentries gh - 1 \<and> entrypool gh' = entrypool gh
              \<and> hashfp gh' = hashfp gh \<and> cmpfp gh' = cmpfp gh \<and> flag gh' = flag gh
              \<and> entry_size gh' = entry_size gh \<and> size_min gh' = size_min gh
              \<and> (nentries gh' \<le> limit_grow gh' \<or> unat (cursize gh') = 26)
              \<and> (flag gh AND GHASH_FLAG_ALLOW_SHRINK \<noteq> 0 \<longrightarrow>
                    limit_shrink gh' \<le> nentries gh' \<or> cursize gh' = size_min gh')"
      using p m sm unfolding expand_post_def ghash_ok_def by simp
    ultimately show "\<exists>gh'. ghash_remove_ex N gh k kf vf h (h mod nbuckets gh)
                    = Inr (Some e, gh', call_free kf (Some (key e)) @ call_free vf (val e))
              \<and> ghash_ok gh' \<and> add_mset e (mset (all_entries gh')) = mset (all_entries gh)
              \<and> nentries gh' = nentries gh - 1 \<and> entrypool gh' = entrypool gh
              \<and> hashfp gh' = hashfp gh \<and> cmpfp gh' = cmpfp gh \<and> flag gh' = flag gh
              \<and> entry_size gh' = entry_size gh \<and> size_min gh' = size_min gh
              \<and> (nentries gh' \<le> limit_grow gh' \<or> unat (cursize gh') = 26)
              \<and> (flag gh AND GHASH_FLAG_ALLOW_SHRINK \<noteq> 0 \<longrightarrow>
                    limit_shrink gh' \<le> nentries gh' \<or> cursize gh' = size_min gh')"
      by blast
  }
qed

lemma grow_loop_zero: "grow_loop 0 (nb, cs, lg) = (nb, cs, lg)"
  by (subst grow_loop.simps) simp

lemma reset_eq:
  "ghash_buckets_reset N gh r =
     (case grow_loop r (hashsizes ! 0, 0, GHASH_LIMIT_GROW (hashsizes ! 0)) of
        (nb, cs, lg) \<Rightarrow>
          Inr (gh\<lparr>buckets := Some (replicate (unat nb) []), cursize := cs, size_min := cs,
                  nbuckets := nb, limit_grow := GHASH_LIMIT_GROW nb,
                  limit_shrink := GHASH_LIMIT_SHRINK nb, nentries := 0, flag := 0\<rparr>))"
proof (cases "r = 0")
  case True
  then show ?thesis
    by (simp add: ghash_buckets_reset_def ghash_expand_buckets_def Let_def grow_loop_zero
        ghash_resize_buckets_def BLI_assert_def)
next
  case False
  obtain nb cs lg where g: "grow_loop r (hashsizes ! 0, 0, GHASH_LIMIT_GROW (hashsizes ! 0)) = (nb, cs, lg)"
    by (metis prod_cases3)
  then show ?thesis using False
    by (simp add: ghash_buckets_reset_def ghash_expand_buckets_def Let_def
        ghash_resize_buckets_def BLI_assert_def)
qed

lemma placed_update_same_bucket:
  assumes "placed nb bs" "i < length bs" "\<forall>e \<in> set c. unat (hash e mod nb) = i"
  shows "placed nb (bs[i := c])"
  unfolding placed_def
proof (intro allI impI ballI)
  fix j x assume j: "j < length (bs[i := c])" and x: "x \<in> set (bs[i := c] ! j)"
  show "unat (hash x mod nb) = j"
  proof (cases "j = i")
    case True
    then have "x \<in> set c" using x assms(2) by auto
    then show ?thesis using assms(3) True by simp
  next
    case False
    then have "x \<in> set (bs ! j)" using x by simp
    then show ?thesis using assms(1) j by (simp add: placed_def)
  qed
qed

lemma chain_hashes: "buckets_ok gh \<Longrightarrow> e \<in> set (chain_of gh h) \<Longrightarrow> hash e mod nbuckets gh = h mod nbuckets gh"
proof -
  assume ok: "buckets_ok gh" and e: "e \<in> set (chain_of gh h)"
  from ok obtain bs where bs: "buckets gh = Some bs" and pl: "placed (nbuckets gh) bs"
    by (auto simp: buckets_ok_iff)
  have "unat (hash e mod nbuckets gh) = unat (h mod nbuckets gh)"
    using pl e bs bucket_index_less[OF ok bs, of h] by (simp add: chain_of_def placed_def)
  then show ?thesis by (simp add: word_unat_eq_iff)
qed

text \<open>A lookup returns the value \<open>v\<close> as soon as some entry matches the key and every
  matching entry carries \<open>v\<close>.\<close>

lemma lookup_determined:
  assumes bok: "buckets_ok gh" and notset: "NDEBUG \<or> flag gh AND GHASH_FLAG_IS_SET = 0"
    and ex: "\<exists>e \<in> set (all_entries gh). key_match gh k (ghash_keyhash gh k) e"
    and all: "\<forall>e \<in> set (all_entries gh). key_match gh k (ghash_keyhash gh k) e \<longrightarrow> val e = Some v"
  shows "BLI_ghash_lookup NDEBUG gh k = Inr v"
proof -
  let ?h = "ghash_keyhash gh k"
  let ?w = "chain_walk (key_match gh k ?h) (chain_of gh ?h)"
  have "\<exists>e \<in> set (chain_of gh ?h). key_match gh k ?h e"
    using ex chain_match_iff[OF bok] by blast
  then have "?w \<noteq> None" by (simp add: chain_walk_None)
  then obtain pre x post where w: "?w = Some (pre, x, post)" by (cases ?w) auto
  from chain_walk_Some[OF w] have "x \<in> set (chain_of gh ?h)" "key_match gh k ?h x" by auto
  then have "val x = Some v" using all chain_of_subset[OF bok] by blast
  moreover have "IS_GHASH_ASSERT NDEBUG gh = Inr ()"
    using notset by (auto simp: IS_GHASH_ASSERT_def BLI_assert_def)
  ultimately show ?thesis
    using w by (simp add: BLI_ghash_lookup_def lookup_entry_ok[OF bok] read_val_def)
qed

subsection \<open>Entry sizes in the set operations\<close>

lemma BLI_assert_Inr: "BLI_assert NDEBUG a txt = Inr u \<Longrightarrow> NDEBUG \<or> a"
  by (simp add: BLI_assert_def split: if_splits)

lemma resize_entry_size:
  "ghash_resize_buckets N gh nb = Inr gh' \<Longrightarrow> entry_size gh' = entry_size gh"
  by (auto simp: ghash_resize_buckets_def bind_err_eq_Inr Let_def split: option.splits if_splits)

lemma expand_entry_size:
  "ghash_expand_buckets N gh n u f = Inr gh' \<Longrightarrow> entry_size gh' = entry_size gh"
  unfolding ghash_expand_buckets_def Let_def
  by (auto split: if_splits prod.splits dest!: resize_entry_size)

lemma link_entry_entry_size:
  "link_entry gh b e = Inr gh' \<Longrightarrow> entry_size gh' = entry_size gh"
  by (auto simp: link_entry_def bucket_set_def bind_err_eq_Inr split: option.splits if_splits)

lemma copy_loop_entry_size:
  "copy_loop esize kc vc es gh = Inr gh' \<Longrightarrow> entry_size gh' = entry_size gh"
proof (induction es arbitrary: gh)
  case Nil
  then show ?case by simp
next
  case (Cons e es)
  then obtain b g1 where "link_entry (BLI_mempool_alloc gh) b (entry_copy fresh_entry e esize kc vc) = Inr g1"
    and "copy_loop esize kc vc es g1 = Inr gh'"
    by (auto simp: Let_def bind_err_eq_Inr)
  then show ?case using Cons.IH link_entry_entry_size by (fastforce simp: BLI_mempool_alloc_def)
qed

lemma ghash_new_entry_size:
  "ghash_new N hfp cfp r esize = Inr gh \<Longrightarrow> entry_size gh = esize"
  by (auto simp: ghash_new_def bind_err_eq_Inr)

lemma ghash_copy_entry_size:
  "ghash_copy N gh kc vc = Inr gh' \<Longrightarrow> entry_size gh' = entry_size gh"
  by (auto simp: ghash_copy_def bind_err_eq_Inr dest!: ghash_new_entry_size expand_entry_size
      copy_loop_entry_size)

lemma union_operands_sizes:
  "union_operands False reverse kc vc kf vf esize ops st = Inr r \<Longrightarrow>
     \<forall>ghn \<in> set ops. entry_size ghn = esize"
proof (induction ops arbitrary: st)
  case Nil
  then show ?case by simp
next
  case (Cons ghn rest)
  obtain gh1 log where st: "st = (gh1, log)" by (cases st)
  from Cons.prems st obtain st' where
    a: "BLI_assert False (esize = entry_size ghn) ''entry_size == ghn->entry_size'' = Inr ()"
    and r: "union_operands False reverse kc vc kf vf esize rest st' = Inr r"
    by (auto simp: bind_err_eq_Inr)
  from BLI_assert_Inr[OF a] Cons.IH[OF r] show ?case by simp
qed

lemma sweep_chain_entry_size [simp]:
  "sweep_chain keep kf vf (ghn\<lparr>entry_size := s\<rparr>) es = sweep_chain keep kf vf ghn es"
proof (induction es)
  case Nil
  then show ?case by simp
next
  case (Cons e es)
  have k: "key_match (ghn\<lparr>entry_size := s\<rparr>) = key_match ghn" by (rule key_match_cmpfp) simp
  show ?case
    by (simp add: Cons ghash_bucket_hash_def ghash_lookup_entry_ex_def bucket_get_def k
        cong: option.case_cong if_cong)
qed

lemma sweep_buckets_entry_size [simp]:
  "sweep_buckets keep kf vf (ghn\<lparr>entry_size := s\<rparr>) cs = sweep_buckets keep kf vf ghn cs"
  by (induction cs) simp_all

lemma sweep_table_entry_size [simp]:
  "sweep_table N keep kf vf (ghn\<lparr>entry_size := s\<rparr>) st = sweep_table N keep kf vf ghn st"
  by (simp add: sweep_table_def assert_same_callbacks_def cong: option.case_cong if_cong prod.case_cong)

lemma sweep_operands_entry_size [simp]:
  "sweep_operands N keep kf vf (map (\<lambda>g. g\<lparr>entry_size := t g\<rparr>) ops) st
     = sweep_operands N keep kf vf ops st"
proof (induction ops arbitrary: st)
  case Nil
  then show ?case by simp
next
  case (Cons g ops)
  show ?case
    by (cases "sweep_table N keep kf vf g st") (simp_all add: Cons)
qed

lemma sweep_operands_entry_size_fun [simp]:
  "sweep_operands N keep kf vf (map (\<lambda>g. g\<lparr>entry_size := t g\<rparr>) ops)
     = sweep_operands N keep kf vf ops"
  by (rule ext) simp

subsection \<open>The load band through the mutations\<close>

lemma load_ok_buckets [simp]: "load_ok (gh\<lparr>buckets := b\<rparr>) = load_ok gh"
  by (simp add: load_ok_def)

lemma load_ok_entrypool [simp]: "load_ok (gh\<lparr>entrypool := b\<rparr>) = load_ok gh"
  by (simp add: load_ok_def)

lemma ghash_ok_entrypool [simp]: "ghash_ok (gh\<lparr>entrypool := b\<rparr>) = ghash_ok gh"
  by (simp add: ghash_ok_def)

lemma ghash_ok_nentries [simp]: "ghash_ok (gh\<lparr>nentries := b\<rparr>) = ghash_ok gh"
  by (simp add: ghash_ok_def)

lemma expand_load:
  assumes ok: "ghash_ok g" and e: "ghash_expand_buckets N g (nentries g) u f = Inr g'"
  shows "ghash_ok g' \<and> load_ok g' \<and> (f \<longrightarrow> shrunk_ok g') \<and> nentries g' = nentries g
         \<and> mset (all_entries g') = mset (all_entries g) \<and> flag g' = flag g
         \<and> hashfp g' = hashfp g \<and> cmpfp g' = cmpfp g \<and> entry_size g' = entry_size g
         \<and> entrypool g' = entrypool g"
proof -
  have r: "resize_ok g" and b: "buckets g = None \<or> buckets_ok g" using ok by (simp_all add: ghash_ok_def)
  from expand_props[OF r b, of N "nentries g" u f] e
  have p: "expand_post g (nentries g) (f \<or> flag g AND GHASH_FLAG_ALLOW_SHRINK \<noteq> 0) g'" by auto
  then show ?thesis
    unfolding expand_post_def load_ok_def shrunk_ok_def ghash_ok_def resize_ok_def by auto
qed

lemma inserted_load: "inserted gh e gh' \<Longrightarrow> ghash_ok gh' \<and> load_ok gh'"
  unfolding inserted_def load_ok_def ghash_ok_def resize_ok_def by auto

lemma link_expand_Inr:
  assumes ok: "ghash_ok gh" and h: "hash e = h"
    and l: "link_entry (BLI_mempool_alloc gh) (h mod nbuckets gh) e = Inr gh1"
    and x: "ghash_expand_buckets N (gh1\<lparr>nentries := nentries gh1 + 1\<rparr>) (nentries gh1 + 1) False False = Inr gh'"
  shows "inserted gh e gh'"
  using link_expand_ok[OF ok h, of N] l x by auto

lemma bucket_hash_Inr: "ghash_bucket_hash gh h = Inr b \<Longrightarrow> b = h mod nbuckets gh"
  by (simp add: ghash_bucket_hash_def split: if_splits)

lemma insert_ex_Inr:
  assumes ok: "ghash_ok gh" and i: "ghash_insert_ex N gh k v h (h mod nbuckets gh) = Inr gh'"
  shows "inserted gh \<lparr>hash = h, key = k, val = Some v\<rparr> gh'"
proof -
  from i obtain gh1 where
    l: "link_entry (BLI_mempool_alloc gh) (h mod nbuckets gh) \<lparr>hash = h, key = k, val = Some v\<rparr> = Inr gh1"
    and x: "ghash_expand_buckets N (gh1\<lparr>nentries := nentries gh1 + 1\<rparr>) (nentries gh1 + 1) False False = Inr gh'"
    by (auto simp: ghash_insert_ex_def Let_def bind_err_eq_Inr)
  from link_expand_Inr[OF ok _ l x] show ?thesis by simp
qed

lemma insert_load:
  assumes ok: "ghash_ok gh" and i: "BLI_ghash_insert N gh k v = Inr gh'"
  shows "ghash_ok gh' \<and> load_ok gh'"
proof -
  from i have "ghash_insert_ex N gh k v (ghash_keyhash gh k) (ghash_keyhash gh k mod nbuckets gh) = Inr gh'"
    by (auto simp: BLI_ghash_insert_def ghash_insert_def Let_def bind_err_eq_Inr dest!: bucket_hash_Inr)
  from insert_ex_Inr[OF ok this] show ?thesis by (rule inserted_load)
qed

lemma bucket_set_same_bucket:
  assumes ok: "buckets_ok gh" and s: "bucket_set gh (h mod nbuckets gh) c = Inr gh'"
    and hs: "\<forall>e \<in> set c. hash e mod nbuckets gh = h mod nbuckets gh"
  shows "buckets_ok gh' \<and> (\<exists>bs. gh' = gh\<lparr>buckets := Some bs\<rparr>)"
proof -
  from ok obtain bs where bs: "buckets gh = Some bs" and nz: "nbuckets gh \<noteq> 0"
    and len: "length bs = unat (nbuckets gh)" and pl: "placed (nbuckets gh) bs"
    by (auto simp: buckets_ok_iff)
  let ?i = "unat (h mod nbuckets gh)"
  have i: "?i < length bs" using bucket_index_less[OF ok bs] .
  have g: "gh' = gh\<lparr>buckets := Some (bs[?i := c])\<rparr>"
    using s bucket_set_ok[OF ok bs, of h c] by simp
  have "\<forall>e \<in> set c. unat (hash e mod nbuckets gh) = ?i" using hs by simp
  from placed_update_same_bucket[OF pl i this]
  have "buckets_ok (gh\<lparr>buckets := Some (bs[?i := c])\<rparr>)" using nz len by (simp add: buckets_ok_iff)
  then show ?thesis using g by blast
qed

lemma lookup_ex_chain:
  assumes ok: "buckets_ok gh"
    and l: "ghash_lookup_entry_ex gh k h (h' mod nbuckets gh) = Inr (Some (pre, x, post))"
  shows "chain_of gh h' = pre @ x # post \<and> key_match gh k h x"
proof -
  have "ghash_lookup_entry_ex gh k h (h' mod nbuckets gh) = Inr (chain_walk (key_match gh k h) (chain_of gh h'))"
    using ok by (auto simp: ghash_lookup_entry_ex_def chain_of_def bucket_get_ok buckets_ok_iff)
  then have "chain_walk (key_match gh k h) (chain_of gh h') = Some (pre, x, post)" using l by simp
  from chain_walk_Some[OF this] show ?thesis by simp
qed

lemma insert_safe_load:
  assumes ok: "ghash_ok gh" and ld: "load_ok gh"
    and i: "ghash_insert_safe N gh k v override kf vf = Inr (b, gh', evs)"
  shows "ghash_ok gh' \<and> load_ok gh'"
proof -
  have bok: "buckets_ok gh" using ok by (simp add: ghash_ok_def)
  let ?h = "ghash_keyhash gh k"
  from i obtain w where lk: "ghash_lookup_entry_ex gh k ?h (?h mod nbuckets gh) = Inr w"
    and rest: "(case w of
          Some (pre, x, post) \<Rightarrow>
            if override
            then bind_err (bucket_set gh (?h mod nbuckets gh) (pre @ x\<lparr>key := k, val := Some v\<rparr> # post))
                   (\<lambda>gh'. Inr (False, gh', call_free kf (Some (key x)) @ call_free vf (val x)))
            else Inr (False, gh, [])
        | None \<Rightarrow>
            bind_err (ghash_insert_ex N gh k v ?h (?h mod nbuckets gh)) (\<lambda>gh'. Inr (True, gh', []))) = Inr (b, gh', evs)"
    by (auto simp: ghash_insert_safe_def Let_def bind_err_eq_Inr dest!: bucket_hash_Inr)
  show ?thesis
  proof (cases w)
    case None
    then have "ghash_insert_ex N gh k v ?h (?h mod nbuckets gh) = Inr gh'"
      using rest by (auto simp: bind_err_eq_Inr)
    from insert_ex_Inr[OF ok this] show ?thesis by (rule inserted_load)
  next
    case (Some p)
    obtain pre x post where p: "p = (pre, x, post)" by (cases p)
    show ?thesis
    proof (cases override)
      case False
      then show ?thesis using rest Some p ok ld by simp
    next
      case True
      then have s: "bucket_set gh (?h mod nbuckets gh) (pre @ x\<lparr>key := k, val := Some v\<rparr> # post) = Inr gh'"
        using rest Some p by (auto simp: bind_err_eq_Inr)
      from lookup_ex_chain[OF bok lk[unfolded Some p]]
      have ch: "chain_of gh ?h = pre @ x # post" and m: "key_match gh k ?h x" by simp_all
      have "\<forall>e \<in> set (pre @ x\<lparr>key := k, val := Some v\<rparr> # post).
              hash e mod nbuckets gh = ?h mod nbuckets gh"
      proof
        fix e assume "e \<in> set (pre @ x\<lparr>key := k, val := Some v\<rparr> # post)"
        then have "hash e = hash x \<or> e \<in> set (chain_of gh ?h)" using ch by auto
        then show "hash e mod nbuckets gh = ?h mod nbuckets gh"
          using m chain_hashes[OF bok] by (auto simp: key_match_def)
      qed
      from bucket_set_same_bucket[OF bok s this]
      obtain bs where "buckets_ok gh'" "gh' = gh\<lparr>buckets := Some bs\<rparr>" by blast
      then show ?thesis using ok ld by (auto simp: ghash_ok_def)
    qed
  qed
qed

lemma remove_ex_load:
  assumes ok: "ghash_ok gh" and ld: "load_ok gh"
    and r: "ghash_remove_ex N gh k kf vf h (h mod nbuckets gh) = Inr (e, gh', evs)"
  shows "ghash_ok gh' \<and> load_ok gh'"
proof (cases "chain_walk (key_match gh k h) (chain_of gh h)")
  case None
  from remove_ex_ok(1)[OF ok None, of N kf vf] r show ?thesis using ok ld by simp
next
  case (Some p)
  obtain pre x post where p: "p = (pre, x, post)" by (cases p)
  from remove_ex_ok(2)[OF ok Some[unfolded p], of N kf vf] r
  show ?thesis unfolding load_ok_def ghash_ok_def resize_ok_def by auto
qed

lemma remove_load:
  assumes ok: "ghash_ok gh" and ld: "load_ok gh"
    and r: "BLI_ghash_remove N gh k kf vf = Inr (b, gh', evs)"
  shows "ghash_ok gh' \<and> load_ok gh'"
proof -
  from r obtain e g where x: "ghash_remove_ex N gh k kf vf (ghash_keyhash gh k) (ghash_keyhash gh k mod nbuckets gh) = Inr (e, g, evs)"
    and g: "gh' = g \<or> gh' = BLI_mempool_free g"
    by (auto simp: BLI_ghash_remove_def Let_def bind_err_eq_Inr split: option.splits dest!: bucket_hash_Inr)
  from remove_ex_load[OF ok ld x] g show ?thesis by (auto simp: BLI_mempool_free_def)
qed

lemma popkey_load:
  assumes ok: "ghash_ok gh" and ld: "load_ok gh"
    and r: "BLI_ghash_popkey N gh k kf = Inr (v, gh', evs)"
  shows "ghash_ok gh' \<and> load_ok gh'"
proof -
  from r obtain e g where x: "ghash_remove_ex N gh k kf None (ghash_keyhash gh k) (ghash_keyhash gh k mod nbuckets gh) = Inr (e, g, evs)"
    and g: "gh' = g \<or> gh' = BLI_mempool_free g"
    by (auto simp: BLI_ghash_popkey_def Let_def bind_err_eq_Inr split: option.splits dest!: bucket_hash_Inr)
  from remove_ex_load[OF ok ld x] g show ?thesis by (auto simp: BLI_mempool_free_def)
qed

lemma reset_ok:
  assumes r: "ghash_buckets_reset N gh n = Inr gh'"
  shows "ghash_ok gh' \<and> load_ok gh' \<and> cursize gh' = size_min gh' \<and> nentries gh' = 0 \<and> flag gh' = 0
         \<and> all_entries gh' = [] \<and> hashfp gh' = hashfp gh \<and> cmpfp gh' = cmpfp gh"
proof -
  obtain nb cs lg where g: "grow_loop n (hashsizes ! 0, 0, GHASH_LIMIT_GROW (hashsizes ! 0)) = (nb, cs, lg)"
    by (metis prod_cases3)
  have "unat (0 :: uint) < 27" by simp
  from grow_loop_props[OF this _ _ g]
  have c: "unat cs < 27" and nb: "nb = hashsizes ! unat cs" by simp_all
  have nz: "nb \<noteq> 0" using hashsizes_nonzero[OF c] nb by simp
  have "gh' = gh\<lparr>buckets := Some (replicate (unat nb) []), cursize := cs, size_min := cs,
                  nbuckets := nb, limit_grow := GHASH_LIMIT_GROW nb,
                  limit_shrink := GHASH_LIMIT_SHRINK nb, nentries := 0, flag := 0\<rparr>"
    using r g by (simp add: reset_eq)
  then show ?thesis using c nb nz
    by (simp add: ghash_ok_def buckets_ok_iff placed_replicate resize_ok_def load_ok_def all_entries_def)
qed

lemma clear_load:
  assumes r: "BLI_ghash_clear_ex N gh kf vf n = Inr (gh', evs)"
  shows "ghash_ok gh' \<and> load_ok gh'"
proof -
  from r obtain g where "ghash_buckets_reset N gh n = Inr g" "gh' = g\<lparr>entrypool := 0\<rparr>"
    by (auto simp: BLI_ghash_clear_ex_def bind_err_eq_Inr)
  then show ?thesis using reset_ok by simp
qed

lemma entry_copy_hash [simp]: "hash (entry_copy d e esz kc vc) = hash e"
  by (simp add: entry_copy_def Let_def split: option.splits)

lemma link_entry_Inr:
  assumes ok: "buckets_ok gh" and h: "hash e = h" and l: "link_entry gh (h mod nbuckets gh) e = Inr gh'"
  shows "buckets_ok gh' \<and> (\<exists>bs. gh' = gh\<lparr>buckets := Some bs\<rparr>)
         \<and> mset (all_entries gh') = add_mset e (mset (all_entries gh))"
  using link_entry_ok[OF ok h] l by auto

lemma copy_loop_ok:
  "buckets_ok g \<Longrightarrow> copy_loop esz kc vc es g = Inr g' \<Longrightarrow>
     buckets_ok g' \<and> (\<exists>bs p. g' = g\<lparr>buckets := Some bs, entrypool := p\<rparr>)"
proof (induction es arbitrary: g)
  case Nil
  then obtain bs where "buckets g = Some bs" by (auto simp: buckets_ok_iff)
  then have eq: "g = g\<lparr>buckets := Some bs, entrypool := entrypool g\<rparr>" by simp
  have "\<exists>bs p. g = g\<lparr>buckets := Some bs, entrypool := p\<rparr>"
    by (rule exI[of _ bs], rule exI[of _ "entrypool g"], rule eq)
  moreover have "g' = g" using Nil by simp
  ultimately show ?case using Nil by simp
next
  case (Cons e es)
  let ?g0 = "BLI_mempool_alloc g"
  have ok0: "buckets_ok ?g0" using Cons.prems(1) by (simp add: BLI_mempool_alloc_def)
  from Cons.prems(2) obtain g1 where
    l: "link_entry ?g0 (hash e mod nbuckets ?g0) (entry_copy fresh_entry e esz kc vc) = Inr g1"
    and r: "copy_loop esz kc vc es g1 = Inr g'"
    by (auto simp: Let_def bind_err_eq_Inr dest!: bucket_hash_Inr)
  from link_entry_Inr[OF ok0 _ l] obtain bs where b1: "buckets_ok g1" and g1: "g1 = ?g0\<lparr>buckets := Some bs\<rparr>"
    by auto
  from Cons.IH[OF b1 r] obtain bs' p where "buckets_ok g'" "g' = g1\<lparr>buckets := Some bs', entrypool := p\<rparr>"
    by blast
  then show ?case using g1 by (auto simp: BLI_mempool_alloc_def)
qed

lemma ghash_ok_entry_size [simp]: "ghash_ok (gh\<lparr>entry_size := b\<rparr>) = ghash_ok gh"
  by (simp add: ghash_ok_def buckets_ok_iff resize_ok_def)

lemma load_ok_entry_size [simp]: "load_ok (gh\<lparr>entry_size := b\<rparr>) = load_ok gh"
  by (simp add: load_ok_def)

lemma ghash_new_ok:
  assumes n: "ghash_new N hfp cfp r esz = Inr g"
  shows "ghash_ok g \<and> load_ok g \<and> cursize g = size_min g \<and> nentries g = 0 \<and> flag g = 0"
proof -
  from n obtain g0 where "ghash_buckets_reset N \<lparr>hashfp = hfp, cmpfp = cfp, buckets = None, entrypool = 0, nbuckets = 0,
           limit_grow = 0, limit_shrink = 0, cursize = 0, size_min = 0, nentries = 0,
           flag = 0, entry_size = esz\<rparr> r = Inr g0" and g: "g = g0\<lparr>entrypool := 0, entry_size := esz\<rparr>"
    by (auto simp: ghash_new_def bind_err_eq_Inr)
  from reset_ok[OF this(1)] g show ?thesis by simp
qed

lemma ghash_copy_ok:
  assumes c: "ghash_copy N gh kc vc = Inr g'"
  shows "ghash_ok g' \<and> load_ok g' \<and> shrunk_ok g'"
proof -
  from c obtain g0 g1 es g2 where n: "ghash_new N (hashfp gh) (cmpfp gh) 0 (entry_size gh) = Inr g0"
    and e: "ghash_expand_buckets N g0 (nentries gh) False False = Inr g1"
    and l: "copy_loop (entry_size gh) kc vc es g1 = Inr g2"
    and g': "g' = g2\<lparr>nentries := nentries gh\<rparr>"
    by (auto simp: ghash_copy_def bind_err_eq_Inr)
  from ghash_new_ok[OF n] have ok0: "ghash_ok g0" and fl: "flag g0 = 0" and fs: "cursize g0 = size_min g0"
    by simp_all
  have r: "resize_ok g0" and b: "buckets g0 = None \<or> buckets_ok g0" using ok0 by (simp_all add: ghash_ok_def)
  from expand_props[OF r b, of N "nentries gh" False False] e
  have p: "expand_post g0 (nentries gh) (False \<or> flag g0 AND GHASH_FLAG_ALLOW_SHRINK \<noteq> 0) g1"
    and sm: "size_min g1 = size_min g0" by auto
  from p have r1: "resize_ok g1" and b1: "buckets_ok g1" and fl1: "flag g1 = 0"
    and up: "nentries gh \<le> limit_grow g1 \<or> unat (cursize g1) = 26"
    and lo: "limit_shrink g1 \<le> nentries gh \<or> cursize g1 = size_min g1"
    using fl fs sm by (auto simp: expand_post_def)
  from copy_loop_ok[OF b1 l] obtain bs q where b2: "buckets_ok g2" and g2: "g2 = g1\<lparr>buckets := Some bs, entrypool := q\<rparr>"
    by blast
  show ?thesis
    using r1 b2 fl1 up lo unfolding g' g2
    by (simp add: ghash_ok_def load_ok_def shrunk_ok_def resize_ok_def buckets_ok_iff)
qed

lemma add_entry_copy_Inr:
  assumes ok: "ghash_ok gh"
    and a: "add_entry_copy N gh (hash e mod nbuckets gh) e esz kc vc = Inr gh'"
  shows "inserted gh (entry_copy fresh_entry e esz kc vc) gh'"
proof -
  from a obtain g1 where
    l: "link_entry (BLI_mempool_alloc gh) (hash e mod nbuckets gh) (entry_copy fresh_entry e esz kc vc) = Inr g1"
    and x: "ghash_expand_buckets N (g1\<lparr>nentries := nentries g1 + 1\<rparr>) (nentries g1 + 1) False False = Inr gh'"
    by (auto simp: add_entry_copy_def bind_err_eq_Inr)
  from link_expand_Inr[OF ok _ l x] show ?thesis by simp
qed

lemma union_loop_load:
  "ghash_ok g \<and> load_ok g \<Longrightarrow>
   union_loop N reverse kc vc kf vf esz es (g, log) = Inr (g', log') \<Longrightarrow>
     ghash_ok g' \<and> load_ok g'"
proof (induction es arbitrary: g log)
  case Nil
  then show ?case by simp
next
  case (Cons e es)
  have ok: "ghash_ok g" and ld: "load_ok g" using Cons.prems(1) by simp_all
  have bok: "buckets_ok g" using ok by (simp add: ghash_ok_def)
  let ?b = "hash e mod nbuckets g"
  from Cons.prems(2) obtain w st where
    lk: "ghash_lookup_entry_ex g (key e) (hash e) ?b = Inr w"
    and step: "(case w of
          None \<Rightarrow> bind_err (add_entry_copy N g ?b e esz kc vc) (\<lambda>gh1'. Inr (gh1', log))
        | Some (pre, x, post) \<Rightarrow>
            if reverse
            then bind_err (bucket_set g ?b (pre @ entry_copy x e esz kc vc # post))
                   (\<lambda>gh1'. Inr (gh1', log @ free_entry_events kf vf x))
            else Inr (g, log)) = Inr st"
    and rest: "union_loop N reverse kc vc kf vf esz es st = Inr (g', log')"
    by (auto simp: bind_err_eq_Inr dest!: bucket_hash_Inr)
  obtain g1 log1 where st: "st = (g1, log1)" by (cases st)
  have "ghash_ok g1 \<and> load_ok g1"
  proof (cases w)
    case None
    then have "add_entry_copy N g ?b e esz kc vc = Inr g1"
      using step st by (auto simp: bind_err_eq_Inr)
    from add_entry_copy_Inr[OF ok this] show ?thesis by (rule inserted_load)
  next
    case (Some p)
    obtain pre x post where p: "p = (pre, x, post)" by (cases p)
    show ?thesis
    proof (cases reverse)
      case False
      then show ?thesis using step st Some p ok ld by simp
    next
      case True
      then have s: "bucket_set g ?b (pre @ entry_copy x e esz kc vc # post) = Inr g1"
        using step st Some p by (auto simp: bind_err_eq_Inr)
      from lookup_ex_chain[OF bok lk[unfolded Some p]]
      have ch: "chain_of g (hash e) = pre @ x # post" by simp
      have "\<forall>y \<in> set (pre @ entry_copy x e esz kc vc # post). hash y mod nbuckets g = ?b"
      proof
        fix y assume "y \<in> set (pre @ entry_copy x e esz kc vc # post)"
        then have "hash y = hash e \<or> y \<in> set (chain_of g (hash e))" using ch by auto
        then show "hash y mod nbuckets g = ?b" using chain_hashes[OF bok] by auto
      qed
      from bucket_set_same_bucket[OF bok s this]
      obtain bs where "buckets_ok g1" "g1 = g\<lparr>buckets := Some bs\<rparr>" by blast
      then show ?thesis using ok ld by (auto simp: ghash_ok_def)
    qed
  qed
  from Cons.IH[OF this rest[unfolded st]] show ?case .
qed

lemma union_operands_load:
  "ghash_ok g \<and> load_ok g \<Longrightarrow>
   union_operands N reverse kc vc kf vf esz ops (g, log) = Inr (g', log') \<Longrightarrow>
     ghash_ok g' \<and> load_ok g'"
proof (induction ops arbitrary: g log)
  case Nil
  then show ?case by simp
next
  case (Cons ghn rest)
  from Cons.prems(2) obtain es st where
    l: "union_loop N reverse kc vc kf vf esz es (g, log) = Inr st"
    and r: "union_operands N reverse kc vc kf vf esz rest st = Inr (g', log')"
    by (auto simp: bind_err_eq_Inr)
  obtain g1 log1 where st: "st = (g1, log1)" by (cases st)
  from union_loop_load[OF Cons.prems(1) l[unfolded st]] Cons.IH r[unfolded st] show ?case by blast
qed

lemma setop_start_ok:
  assumes s: "setop_start N kc vc gh1 gh2 arg = Inr (g1, ops)"
    and ok: "\<forall>g. gh1 = Some g \<longrightarrow> ghash_ok g \<and> load_ok g"
  shows "ghash_ok g1 \<and> load_ok g1 \<and> (gh1 = None \<longrightarrow> shrunk_ok g1)
         \<and> (gh1 \<noteq> None \<longrightarrow> gh2 \<noteq> None \<longrightarrow> ops \<noteq> [])"
proof (cases gh1)
  case (Some g)
  then show ?thesis using s ok
    by (auto simp: setop_start_def bind_err_eq_Inr split: option.splits)
next
  case None
  then obtain g2 where "ghash_copy N g2 kc vc = Inr g1"
    using s by (auto simp: setop_start_def bind_err_eq_Inr split: option.splits)
  from ghash_copy_ok[OF this] show ?thesis using None by simp
qed

lemma union_load:
  assumes u: "ghash_union N reverse kc vc kf vf gh1 gh2 arg = Inr (g', log')"
    and ok: "\<forall>g. gh1 = Some g \<longrightarrow> ghash_ok g \<and> load_ok g"
  shows "ghash_ok g' \<and> load_ok g'"
proof -
  from u obtain g1 ops where s: "setop_start N kc vc gh1 gh2 arg = Inr (g1, ops)"
    and o: "union_operands N reverse kc vc kf vf (entry_size g1) ops (g1, []) = Inr (g', log')"
    by (auto simp: ghash_union_def bind_err_eq_Inr)
  from setop_start_ok[OF s ok] have "ghash_ok g1 \<and> load_ok g1" by simp
  from union_operands_load[OF this o] show ?thesis .
qed

lemma sweep_chain_subset:
  "sweep_chain keep kf vf ghn es = Inr (kept, evs, n) \<Longrightarrow> set kept \<subseteq> set es"
proof (induction es arbitrary: kept evs n)
  case Nil
  then show ?case by simp
next
  case (Cons e es)
  from Cons.prems obtain kept' evs' n' where
    r: "sweep_chain keep kf vf ghn es = Inr (kept', evs', n')"
    and k: "kept = e # kept' \<or> kept = kept'"
    by (auto simp: bind_err_eq_Inr split: if_splits)
  from Cons.IH[OF r] k show ?case by auto
qed

lemma sweep_buckets_subset:
  "sweep_buckets keep kf vf ghn cs = Inr (kepts, evs, n) \<Longrightarrow>
     list_all2 (\<lambda>k c. set k \<subseteq> set c) kepts cs"
proof (induction cs arbitrary: kepts evs n)
  case Nil
  then show ?case by simp
next
  case (Cons c cs)
  from Cons.prems obtain k e1 n1 ks e2 n2 where
    a: "sweep_chain keep kf vf ghn c = Inr (k, e1, n1)"
    and b: "sweep_buckets keep kf vf ghn cs = Inr (ks, e2, n2)"
    and c: "kepts = k # ks"
    by (auto simp: bind_err_eq_Inr)
  from sweep_chain_subset[OF a] Cons.IH[OF b] c show ?case by simp
qed

lemma placed_subset:
  assumes "placed nb bs" "list_all2 (\<lambda>k c. set k \<subseteq> set c) ks bs"
  shows "placed nb ks"
  unfolding placed_def
proof (intro allI impI ballI)
  fix i e assume i: "i < length ks" and e: "e \<in> set (ks ! i)"
  have "length ks = length bs" using assms(2) by (rule list_all2_lengthD)
  moreover have "set (ks ! i) \<subseteq> set (bs ! i)" using assms(2) i by (rule list_all2_nthD)
  ultimately show "unat (hash e mod nb) = i" using assms(1) i e by (auto simp: placed_def)
qed

lemma sweep_table_ok:
  assumes ok: "ghash_ok g1"
    and s: "sweep_table N keep kf vf ghn (g1, log) = Inr (g', log')"
  shows "ghash_ok g' \<and> load_ok g' \<and> shrunk_ok g'"
proof -
  from ok obtain bs where bs: "buckets g1 = Some bs" and nz: "nbuckets g1 \<noteq> 0"
    and len: "length bs = unat (nbuckets g1)" and pl: "placed (nbuckets g1) bs"
    by (auto simp: ghash_ok_def buckets_ok_iff)
  from s bs len obtain kepts evs n where
    sw: "sweep_buckets keep kf vf ghn bs = Inr (kepts, evs, n)"
    and ex: "ghash_expand_buckets N
               (g1\<lparr>buckets := Some kepts, entrypool := entrypool g1 - n, nentries := nentries g1 - of_nat n\<rparr>)
               (nentries g1 - of_nat n) False True = Inr g'"
    by (auto simp: sweep_table_def bind_err_eq_Inr Let_def)
  let ?g = "g1\<lparr>buckets := Some kepts, entrypool := entrypool g1 - n, nentries := nentries g1 - of_nat n\<rparr>"
  from sweep_buckets_subset[OF sw] have l2: "list_all2 (\<lambda>k c. set k \<subseteq> set c) kepts bs" .
  then have "length kepts = length bs" by (rule list_all2_lengthD)
  moreover have "placed (nbuckets g1) kepts" using pl l2 by (rule placed_subset)
  ultimately have "buckets_ok ?g" using nz len by (simp add: buckets_ok_iff)
  moreover have "resize_ok ?g" using ok by (simp add: ghash_ok_def resize_ok_def)
  ultimately have okg: "ghash_ok ?g" by (simp add: ghash_ok_def)
  have "ghash_expand_buckets N ?g (nentries ?g) False True = Inr g'" using ex by simp
  from expand_load[OF okg this] show ?thesis by simp
qed

lemma sweep_operands_ok:
  "ghash_ok g1 \<Longrightarrow> sweep_operands N keep kf vf ops (g1, log) = Inr (g', log') \<Longrightarrow>
     ghash_ok g' \<and> (ops \<noteq> [] \<or> load_ok g1 \<longrightarrow> load_ok g') \<and> (ops \<noteq> [] \<or> shrunk_ok g1 \<longrightarrow> shrunk_ok g')"
proof (induction ops arbitrary: g1 log)
  case Nil
  then show ?case by simp
next
  case (Cons ghn rest)
  from Cons.prems(2) obtain st where
    a: "sweep_table N keep kf vf ghn (g1, log) = Inr st"
    and b: "sweep_operands N keep kf vf rest st = Inr (g', log')"
    by (auto simp: bind_err_eq_Inr)
  obtain g2 log2 where st: "st = (g2, log2)" by (cases st)
  from sweep_table_ok[OF Cons.prems(1) a[unfolded st]]
  have 2: "ghash_ok g2" "load_ok g2" "shrunk_ok g2" by simp_all
  from Cons.IH[OF 2(1) b[unfolded st]] 2 show ?case by auto
qed

lemma sweep_setop_ok:
  assumes s: "setop_start N kc vc gh1 (Some gh2) arg = Inr (g1, ops)"
    and o: "sweep_operands N keep kf vf ops (g1, []) = Inr (g', log')"
    and ok: "\<forall>g. gh1 = Some g \<longrightarrow> ghash_ok g \<and> load_ok g"
  shows "ghash_ok g' \<and> load_ok g' \<and> shrunk_ok g'"
proof -
  from setop_start_ok[OF s ok]
  have 1: "ghash_ok g1" "load_ok g1" "gh1 = None \<longrightarrow> shrunk_ok g1" "gh1 \<noteq> None \<longrightarrow> ops \<noteq> []"
    by simp_all
  from sweep_operands_ok[OF 1(1) o] 1 show ?thesis by (cases gh1) auto
qed

lemma unlink_match_ok:
  assumes ok: "ghash_ok g" and u: "unlink_match g (h mod nbuckets g) P = Inr (r, g')"
  shows "ghash_ok g'"
proof -
  have bok: "buckets_ok g" using ok by (simp add: ghash_ok_def)
  from bok obtain bs where bs: "buckets g = Some bs" by (auto simp: buckets_ok_iff)
  have get: "bucket_get g (h mod nbuckets g) = Inr (chain_of g h)"
    using bucket_get_ok[OF bok bs] bs by (simp add: chain_of_def)
  show ?thesis
  proof (cases "chain_walk P (chain_of g h)")
    case None
    then show ?thesis using u ok get by (simp add: unlink_match_def)
  next
    case (Some p)
    obtain pre x post where p: "p = (pre, x, post)" by (cases p)
    from chain_walk_Some[OF Some[unfolded p]] have "set (pre @ post) \<subseteq> set (chain_of g h)" by auto
    note cs = chain_set_ok[OF bok bs this]
    have "g' = BLI_mempool_free
             (g\<lparr>buckets := Some (bs[unat (h mod nbuckets g) := pre @ post]),
                nentries := nentries g - 1\<rparr>)"
      using u get Some p cs(1) by (simp add: unlink_match_def)
    then show ?thesis using cs(2) ok
      by (simp add: ghash_ok_def BLI_mempool_free_def buckets_ok_iff resize_ok_def)
  qed
qed

lemma symdiff_second_loop_ok:
  "ghash_ok g1 \<Longrightarrow>
   symdiff_second_loop N kf vf es (keys, g1, log) = Inr (keys', g1', log') \<Longrightarrow> ghash_ok g1'"
proof (induction es arbitrary: keys g1 log)
  case Nil
  then show ?case by simp
next
  case (Cons e es)
  let ?P = "\<lambda>e_curr. hash e_curr = hash e \<and> fn_call (cmpfp keys) (key e_curr) (key e) = False"
  from Cons.prems(2) obtain r g2 st where
    u: "unlink_match g1 (hash e mod nbuckets g1) ?P = Inr (r, g2)"
    and rest: "symdiff_second_loop N kf vf es st = Inr (keys', g1', log')"
    and st: "fst (snd st) = g2"
    by (auto simp: bind_err_eq_Inr Let_def dest!: bucket_hash_Inr)
  obtain k2 l2 where st': "st = (k2, g2, l2)" using st by (cases st) auto
  from unlink_match_ok[OF Cons.prems(1) u] have "ghash_ok g2" .
  from Cons.IH[OF this rest[unfolded st']] show ?case .
qed

lemma symdiff_final_loop_ok:
  "ghash_ok g1 \<Longrightarrow> symdiff_final_loop N esz kc vc es g1 = Inr g1' \<Longrightarrow> ghash_ok g1'"
proof (induction es arbitrary: g1)
  case Nil
  then show ?case by simp
next
  case (Cons e es)
  from Cons.prems(2) obtain w :: "Entry_ptr option" and g2 where
    step: "(case w of None \<Rightarrow> add_entry_copy N g1 (hash e mod nbuckets g1) e esz kc vc
                     | Some _ \<Rightarrow> Inr g1) = Inr g2"
    and rest: "symdiff_final_loop N esz kc vc es g2 = Inr g1'"
    by (auto simp: bind_err_eq_Inr dest!: bucket_hash_Inr)
  have "ghash_ok g2"
  proof (cases w)
    case None
    then have "add_entry_copy N g1 (hash e mod nbuckets g1) e esz kc vc = Inr g2" using step by simp
    from add_entry_copy_Inr[OF Cons.prems(1) this] show ?thesis by (simp add: inserted_def)
  next
    case (Some p)
    then show ?thesis using step Cons.prems(1) by simp
  qed
  from Cons.IH[OF this rest] show ?case .
qed

lemma symdiff_ok:
  assumes s: "ghash_symmetric_difference N kc vc kf vf gh1 gh2 arg = Inr (g', log')"
    and ok: "\<forall>g. gh1 = Some g \<longrightarrow> ghash_ok g \<and> load_ok g"
  shows "ghash_ok g' \<and> load_ok g' \<and> shrunk_ok g'"
proof -
  from s obtain g1 ops rs keys g2 log2 esz ks g3 where
    st: "setop_start N kc vc gh1 gh2 arg = Inr (g1, ops)"
    and l2: "symdiff_second_loop N kf vf rs (keys, g1, []) = Inr (ks, g2, log2)"
    and l3: "symdiff_final_loop N esz kc vc (projr (ghash_entries ks)) g2 = Inr g3"
    and ex: "ghash_expand_buckets N g3 (nentries g3) False True = Inr g'"
    by (auto simp: ghash_symmetric_difference_def bind_err_eq_Inr)
  from setop_start_ok[OF st ok] have "ghash_ok g1" by simp
  from symdiff_second_loop_ok[OF this l2] have "ghash_ok g2" .
  from symdiff_final_loop_ok[OF this l3] have "ghash_ok g3" .
  from expand_load[OF this ex] show ?thesis by simp
qed

section \<open>The claims\<close>

subsection \<open>Symmetric difference\<close>

text \<open>
  Claim C1. The claim says that, for tables sharing hash and comparison callbacks, every
  member of \<open>rem_keys\<close> met by the second pass is still present in \<open>keys\<close>, so that the
  assertion \<^verbatim>\<open>e_curr != NULL\<close> holds for any number of operands, also when one key
  occurs in three or more of them. The code does not keep this: the first pass links a
  key into \<open>rem_keys\<close> once for each operand after the first that holds it, without
  looking it up there, so a key of three operands is in \<open>rem_keys\<close> twice; the second
  pass removes it from \<open>keys\<close> at the first copy and fails the assertion at the second.
  On the sets \<open>{1,2,3}\<close>, \<open>{2,3,4}\<close>, \<open>{3,4,5}\<close> the build with assertions ends in that
  failed assertion.
\<close>

theorem symdiff_three_operands_assertion_fails:
  "symdiff_S5 False = Inl (ASSERT ''e_curr != NULL'')"
  by code_simp


subsection \<open>Insertion and lookup\<close>

text \<open>
  Claim C4, as stated, fails: in a map that holds key 1 with the null pointer as its
  value, \<^verbatim>\<open>BLI_ghash_lookup\<close> returns \<^verbatim>\<open>NULL\<close> for key 1, which is also its answer
  for a missing key, and yet \<^verbatim>\<open>BLI_ghash_add\<close> on key 1 returns false.
\<close>

theorem add_null_value_counterexample:
  "BLI_ghash_lookup False table_null_value 1 = Inr NULL
   \<and> map_sum id fst (BLI_ghash_add False table_null_value 1 7) = Inr False"
  by code_simp

text \<open>
  Claim C4, amended. On a well-formed map, \<^verbatim>\<open>BLI_ghash_add\<close> returns true exactly when
  the key is absent just before the call, that is when \<^verbatim>\<open>BLI_ghash_haskey\<close> answers
  false; when the key is present the call returns false and leaves the table as it is,
  whatever the stored value.
\<close>

theorem add_true_iff_absent:
  assumes ok: "ghash_ok gh" and notset: "NDEBUG \<or> flag gh AND GHASH_FLAG_IS_SET = 0"
  shows "\<exists>gh' evs. BLI_ghash_add NDEBUG gh k v = Inr (BLI_ghash_haskey gh k = Inr False, gh', evs)
           \<and> (BLI_ghash_haskey gh k = Inr True \<longrightarrow> gh' = gh)"
proof -
  have bok: "buckets_ok gh" using ok by (simp add: ghash_ok_def)
  let ?h = "ghash_keyhash gh k"
  let ?w = "chain_walk (key_match gh k ?h) (chain_of gh ?h)"
  show ?thesis
  proof (cases ?w)
    case None
    then have "ghash_lookup_entry gh k = Inr None" by (simp add: lookup_entry_ok[OF bok])
    then have dup: "NDEBUG \<or> flag gh AND GHASH_FLAG_ALLOW_DUPES \<noteq> 0 \<or> ghash_lookup_entry gh k = Inr None"
      by simp
    from insert_ex_ok[OF ok dup notset, of v ?h]
    obtain gh' where "ghash_insert_ex NDEBUG gh k v ?h (?h mod nbuckets gh) = Inr gh'" by blast
    then show ?thesis using None
      by (simp add: BLI_ghash_add_def ghash_insert_safe_def Let_def bucket_hash_ok[OF bok]
          lookup_entry_ex_ok[OF bok] haskey_ok[OF bok])
  next
    case (Some p)
    then show ?thesis
      by (cases p) (simp add: BLI_ghash_add_def ghash_insert_safe_def Let_def bucket_hash_ok[OF bok]
          lookup_entry_ex_ok[OF bok] haskey_ok[OF bok])
  qed
qed

theorem add_true_iff_absent_witness:
  "ghash_ok table_null_value \<and> (False \<or> flag table_null_value AND GHASH_FLAG_IS_SET = 0)
   \<and> BLI_ghash_haskey table_null_value 1 = Inr True
   \<and> BLI_ghash_haskey table_null_value 2 = Inr False
   \<and> (\<exists>evs. BLI_ghash_add False table_null_value 1 7 = Inr (False, table_null_value, evs))
   \<and> (\<exists>gh' evs. BLI_ghash_add False table_null_value 2 7 = Inr (True, gh', evs))"
proof -
  have h1: "ghash_ok table_null_value" by code_simp
  have h2: "False \<or> flag table_null_value AND GHASH_FLAG_IS_SET = 0" by code_simp
  have k1: "BLI_ghash_haskey table_null_value 1 = Inr True" by code_simp
  have k2: "BLI_ghash_haskey table_null_value 2 = Inr False" by code_simp
  from add_true_iff_absent[OF h1 h2, of 1 7] k1
  have a1: "\<exists>evs. BLI_ghash_add False table_null_value 1 7 = Inr (False, table_null_value, evs)"
    by auto
  from add_true_iff_absent[OF h1 h2, of 2 7] k2
  have a2: "\<exists>gh' evs. BLI_ghash_add False table_null_value 2 7 = Inr (True, gh', evs)"
    by auto
  show ?thesis using h1 h2 k1 k2 a1 a2 by blast
qed

text \<open>
  Claim C6. For every well-formed map and every key, \<^verbatim>\<open>BLI_ghash_lookup\<close> hashes the
  key, walks the chain of the bucket the hash selects, and returns the value of the
  first entry whose cached hash equals the key's hash and for which the comparison
  callback returns false; without such an entry it returns \<^verbatim>\<open>NULL\<close>. The walk of the
  source (\<open>chain_walk\<close>) is compared with the reference definition \<open>first_match\<close>.
\<close>

theorem lookup_first_match:
  assumes bok: "buckets_ok gh" and notset: "NDEBUG \<or> flag gh AND GHASH_FLAG_IS_SET = 0"
  shows "BLI_ghash_lookup NDEBUG gh k =
           (case first_match gh k of None \<Rightarrow> Inr NULL | Some e \<Rightarrow> read_val e)"
proof -
  let ?h = "ghash_keyhash gh k"
  have km: "key_match gh k ?h = (\<lambda>e. hash e = fn_call (hashfp gh) k \<and> \<not> fn_call (cmpfp gh) k (key e))"
    by (intro ext) (simp add: key_match_def ghash_keyhash_def)
  have fm: "first_match gh k = map_option (\<lambda>(pre, x, post). x) (chain_walk (key_match gh k ?h) (chain_of gh ?h))"
    unfolding chain_walk_find km by (simp add: first_match_def chain_of_def ghash_keyhash_def Let_def)
  have a: "IS_GHASH_ASSERT NDEBUG gh = Inr ()"
    using notset by (auto simp: IS_GHASH_ASSERT_def BLI_assert_def)
  show ?thesis
    by (cases "chain_walk (key_match gh k ?h) (chain_of gh ?h)")
       (auto simp: BLI_ghash_lookup_def lookup_entry_ok[OF bok] a fm)
qed

theorem lookup_first_match_witness:
  "buckets_ok table_S1 \<and> (False \<or> flag table_S1 AND GHASH_FLAG_IS_SET = 0)
   \<and> first_match table_S1 0x100 = Some \<lparr>hash = 16, key = 0x100, val = Some 0x200\<rparr>
   \<and> BLI_ghash_lookup False table_S1 0x100 = Inr 0x200
   \<and> first_match table_S1 0x999 = None
   \<and> BLI_ghash_lookup False table_S1 0x999 = Inr NULL"
proof -
  have h1: "buckets_ok table_S1" by code_simp
  have h2: "False \<or> flag table_S1 AND GHASH_FLAG_IS_SET = 0" by code_simp
  have f1: "first_match table_S1 0x100 = Some \<lparr>hash = 16, key = 0x100, val = Some 0x200\<rparr>"
    by code_simp
  have f2: "first_match table_S1 0x999 = None" by code_simp
  from lookup_first_match[OF h1 h2, of "0x100"] f1
  have l1: "BLI_ghash_lookup False table_S1 0x100 = Inr 0x200" by (simp add: read_val_def)
  from lookup_first_match[OF h1 h2, of "0x999"] f2
  have l2: "BLI_ghash_lookup False table_S1 0x999 = Inr NULL" by simp
  show ?thesis using h1 h2 f1 f2 l1 l2 by blast
qed

subsection \<open>Removal\<close>

text \<open>
  Claim C8. On a well-formed map: when the key is absent, \<^verbatim>\<open>BLI_ghash_remove\<close> returns
  false, \<^verbatim>\<open>BLI_ghash_popkey\<close> returns \<^verbatim>\<open>NULL\<close>, and both leave the whole table state
  unchanged. When the key is present, remove returns true, the entry found by the lookup
  is the one taken out, \<open>nentries\<close> goes down by exactly one, and pop ends in the same
  table and returns the stored value.
\<close>

theorem remove_and_pop:
  assumes ok: "ghash_ok gh" and notset: "NDEBUG \<or> flag gh AND GHASH_FLAG_IS_SET = 0"
  shows "(ghash_lookup_entry gh k = Inr None \<longrightarrow>
            BLI_ghash_remove NDEBUG gh k keyfreefp valfreefp = Inr (False, gh, [])
            \<and> BLI_ghash_popkey NDEBUG gh k keyfreefp = Inr (NULL, gh, []))
       \<and> (\<forall>pre e post. ghash_lookup_entry gh k = Inr (Some (pre, e, post)) \<longrightarrow>
            (\<exists>gh'. BLI_ghash_remove NDEBUG gh k keyfreefp valfreefp
                      = Inr (True, gh', call_free keyfreefp (Some (key e)) @ call_free valfreefp (val e))
                 \<and> nentries gh' = nentries gh - 1
                 \<and> add_mset e (mset (all_entries gh')) = mset (all_entries gh)
                 \<and> (\<forall>v. val e = Some v \<longrightarrow>
                        BLI_ghash_popkey NDEBUG gh k keyfreefp
                          = Inr (v, gh', call_free keyfreefp (Some (key e))))))"
proof -
  have bok: "buckets_ok gh" using ok by (simp add: ghash_ok_def)
  let ?h = "ghash_keyhash gh k"
  let ?w = "chain_walk (key_match gh k ?h) (chain_of gh ?h)"
  have lk: "ghash_lookup_entry gh k = Inr ?w" by (rule lookup_entry_ok[OF bok])
  have a: "IS_GHASH_ASSERT NDEBUG gh = Inr ()"
    using notset by (auto simp: IS_GHASH_ASSERT_def BLI_assert_def)
  have absent: "BLI_ghash_remove NDEBUG gh k keyfreefp valfreefp = Inr (False, gh, [])
            \<and> BLI_ghash_popkey NDEBUG gh k keyfreefp = Inr (NULL, gh, [])" if "?w = None"
    using remove_ex_ok(1)[OF ok that] a
    by (simp add: BLI_ghash_remove_def BLI_ghash_popkey_def Let_def bucket_hash_ok[OF bok])
  have present: "\<exists>gh'. BLI_ghash_remove NDEBUG gh k keyfreefp valfreefp
                      = Inr (True, gh', call_free keyfreefp (Some (key e)) @ call_free valfreefp (val e))
                 \<and> nentries gh' = nentries gh - 1
                 \<and> add_mset e (mset (all_entries gh')) = mset (all_entries gh)
                 \<and> (\<forall>v. val e = Some v \<longrightarrow>
                        BLI_ghash_popkey NDEBUG gh k keyfreefp
                          = Inr (v, gh', call_free keyfreefp (Some (key e))))"
    if w: "?w = Some (pre, e, post)" for pre e post
  proof -
    from remove_ex_ok(2)[OF ok w, of NDEBUG keyfreefp valfreefp]
    obtain g1 where r1: "ghash_remove_ex NDEBUG gh k keyfreefp valfreefp ?h (?h mod nbuckets gh)
          = Inr (Some e, g1, call_free keyfreefp (Some (key e)) @ call_free valfreefp (val e))"
      and n1: "nentries g1 = nentries gh - 1"
      and m1: "add_mset e (mset (all_entries g1)) = mset (all_entries gh)"
      and f1: "flag g1 = flag gh"
      by blast
    from remove_ex_ok(2)[OF ok w, of NDEBUG keyfreefp None]
    obtain g2 where r2: "ghash_remove_ex NDEBUG gh k keyfreefp None ?h (?h mod nbuckets gh)
          = Inr (Some e, g2, call_free keyfreefp (Some (key e)) @ call_free None (val e))"
      by blast
    have same: "g2 = g1"
      using r1 r2 by (auto simp: ghash_remove_ex_def bind_err_eq_Inr split: option.splits)
    have a1: "IS_GHASH_ASSERT NDEBUG g1 = Inr ()"
      using notset f1 by (auto simp: IS_GHASH_ASSERT_def BLI_assert_def)
    let ?g = "BLI_mempool_free g1"
    have "BLI_ghash_remove NDEBUG gh k keyfreefp valfreefp
            = Inr (True, ?g, call_free keyfreefp (Some (key e)) @ call_free valfreefp (val e))"
      using r1 by (simp add: BLI_ghash_remove_def Let_def bucket_hash_ok[OF bok])
    moreover have "nentries ?g = nentries gh - 1" using n1 by (simp add: BLI_mempool_free_def)
    moreover have "add_mset e (mset (all_entries ?g)) = mset (all_entries gh)"
      using m1 by (simp add: BLI_mempool_free_def)
    moreover have "\<forall>v. val e = Some v \<longrightarrow>
        BLI_ghash_popkey NDEBUG gh k keyfreefp = Inr (v, ?g, call_free keyfreefp (Some (key e)))"
      using r2 same a1
      by (simp add: BLI_ghash_popkey_def Let_def bucket_hash_ok[OF bok] read_val_def call_free_def)
    ultimately show ?thesis by blast
  qed
  show ?thesis using absent present lk by auto
qed

theorem remove_and_pop_witness:
  "ghash_ok table_S1 \<and> (False \<or> flag table_S1 AND GHASH_FLAG_IS_SET = 0)
   \<and> ghash_lookup_entry table_S1 0x999 = Inr None
   \<and> BLI_ghash_remove False table_S1 0x999 None None = Inr (False, table_S1, [])
   \<and> BLI_ghash_popkey False table_S1 0x999 None = Inr (NULL, table_S1, [])
   \<and> ghash_lookup_entry table_S1 0x100 = Inr (Some ([], \<lparr>hash = 16, key = 0x100, val = Some 0x200\<rparr>, []))
   \<and> (\<exists>gh'. BLI_ghash_remove False table_S1 0x100 None None = Inr (True, gh', [])
          \<and> nentries table_S1 = 2 \<and> nentries gh' = 1
          \<and> BLI_ghash_popkey False table_S1 0x100 None = Inr (0x200, gh', []))"
proof -
  have h1: "ghash_ok table_S1" by code_simp
  have h2: "False \<or> flag table_S1 AND GHASH_FLAG_IS_SET = 0" by code_simp
  have a: "ghash_lookup_entry table_S1 0x999 = Inr None" by code_simp
  have p: "ghash_lookup_entry table_S1 0x100
             = Inr (Some ([], \<lparr>hash = 16, key = 0x100, val = Some 0x200\<rparr>, []))"
    by code_simp
  have n: "nentries table_S1 = 2" by code_simp
  note t = remove_and_pop[OF h1 h2, where keyfreefp = None and valfreefp = None]
  from t[of "0x999"] a
  have r1: "BLI_ghash_remove False table_S1 0x999 None None = Inr (False, table_S1, [])
            \<and> BLI_ghash_popkey False table_S1 0x999 None = Inr (NULL, table_S1, [])"
    by blast
  from t[of "0x100"] p
  obtain gh' where "BLI_ghash_remove False table_S1 0x100 None None
                      = Inr (True, gh', call_free None (Some 0x100) @ call_free None (Some 0x200))"
    "nentries gh' = nentries table_S1 - 1"
    "BLI_ghash_popkey False table_S1 0x100 None = Inr (0x200, gh', call_free None (Some 0x100))"
    by force
  then have r2: "\<exists>gh'. BLI_ghash_remove False table_S1 0x100 None None = Inr (True, gh', [])
          \<and> nentries table_S1 = 2 \<and> nentries gh' = 1
          \<and> BLI_ghash_popkey False table_S1 0x100 None = Inr (0x200, gh', [])"
    using n by (auto simp: call_free_def)
  show ?thesis using h1 h2 a p r1 r2 by blast
qed

subsection \<open>Clearing\<close>

text \<open>
  Claim C10. \<^verbatim>\<open>BLI_ghash_clear_ex\<close> leaves the flags word at zero, so neither
  \<open>ALLOW_DUPES\<close> nor \<open>ALLOW_SHRINK\<close> holds afterwards, and it restarts the schedule from
  the first step: the cursor and the floor after the call are both the step that the
  grow loop reaches from step 0 for the reservation passed to the call, whatever floor
  the table had before; with a reservation of 0 both are 0 and the table has 5 buckets.
\<close>

theorem clear_resets:
  assumes cb: "keyfreefp = None \<and> valfreefp = None \<or> buckets_ok gh"
  shows "\<exists>gh' evs. BLI_ghash_clear_ex NDEBUG gh keyfreefp valfreefp r = Inr (gh', evs)
           \<and> flag gh' = 0
           \<and> flag gh' AND GHASH_FLAG_ALLOW_DUPES = 0 \<and> flag gh' AND GHASH_FLAG_ALLOW_SHRINK = 0
           \<and> nentries gh' = 0
           \<and> size_min gh' = cursize gh'
           \<and> (nbuckets gh', cursize gh', limit_grow gh')
                = grow_loop r (hashsizes ! 0, 0, GHASH_LIMIT_GROW (hashsizes ! 0))
           \<and> (r = 0 \<longrightarrow> cursize gh' = 0 \<and> size_min gh' = 0 \<and> nbuckets gh' = 5)"
proof -
  obtain evs where f: "(if keyfreefp \<noteq> None \<or> valfreefp \<noteq> None
               then ghash_free_cb NDEBUG gh keyfreefp valfreefp else Inr []) = Inr evs"
  proof (cases "keyfreefp \<noteq> None \<or> valfreefp \<noteq> None")
    case True
    then have "buckets_ok gh" using cb by auto
    then have "ghash_free_cb NDEBUG gh keyfreefp valfreefp
        = Inr (concat (map (free_entry_events keyfreefp valfreefp) (all_entries gh)))"
      using True by (simp add: ghash_free_cb_def BLI_assert_def ghash_entries_ok)
    then show ?thesis using True that by simp
  next
    case False
    then show ?thesis using that by simp
  qed
  obtain nb cs lg where g: "grow_loop r (hashsizes ! 0, 0, GHASH_LIMIT_GROW (hashsizes ! 0)) = (nb, cs, lg)"
    by (metis prod_cases3)
  have "unat (0 :: uint) < 27" by simp
  from grow_loop_props[OF this _ _ g] have lg: "lg = GHASH_LIMIT_GROW nb" by simp
  have z: "r = 0 \<longrightarrow> cs = 0 \<and> nb = 5"
    using g by (auto simp: grow_loop_zero hashsizes_def)
  show ?thesis
    using f g lg z by (simp add: BLI_ghash_clear_ex_def reset_eq)
qed

theorem clear_resets_witness:
  "(None = (None :: nat option) \<and> None = (None :: nat option) \<or> buckets_ok table_reserved)
   \<and> size_min table_reserved = 6 \<and> cursize table_reserved = 6
   \<and> flag table_reserved AND GHASH_FLAG_ALLOW_SHRINK \<noteq> 0
   \<and> flag table_reserved AND GHASH_FLAG_ALLOW_DUPES \<noteq> 0
   \<and> (\<exists>gh' evs. BLI_ghash_clear_ex False table_reserved None None 0 = Inr (gh', evs)
          \<and> flag gh' = 0 \<and> size_min gh' = 0 \<and> cursize gh' = 0 \<and> nbuckets gh' = 5)"
proof -
  have h: "None = (None :: nat option) \<and> None = (None :: nat option) \<or> buckets_ok table_reserved"
    by simp
  have s: "size_min table_reserved = 6 \<and> cursize table_reserved = 6
     \<and> flag table_reserved AND GHASH_FLAG_ALLOW_SHRINK \<noteq> 0
     \<and> flag table_reserved AND GHASH_FLAG_ALLOW_DUPES \<noteq> 0"
    by code_simp
  from clear_resets[OF h, of False 0]
  have "\<exists>gh' evs. BLI_ghash_clear_ex False table_reserved None None 0 = Inr (gh', evs)
          \<and> flag gh' = 0 \<and> size_min gh' = 0 \<and> cursize gh' = 0 \<and> nbuckets gh' = 5"
    by auto
  then show ?thesis using h s by blast
qed

subsection \<open>Reinsertion\<close>

text \<open>
  Claim C7. On a well-formed map whose comparison callback finds the key equal to itself:
  when the key is present, \<^verbatim>\<open>BLI_ghash_reinsert\<close> overwrites the entry found by the
  lookup in place (same position of the same chain, nothing else of the table changes),
  calls the key free callback on the old key and then the value free callback on the old
  value, returns false and leaves \<open>nentries\<close> as it was; when the key is absent it adds
  one new entry and returns true. In both cases a lookup of the key afterwards returns
  the new value.
\<close>

theorem reinsert_overwrites_or_inserts:
  assumes ok: "ghash_ok gh" and notset: "NDEBUG \<or> flag gh AND GHASH_FLAG_IS_SET = 0"
    and refl: "fn_call (cmpfp gh) k k = False"
  shows "(\<forall>pre x post. ghash_lookup_entry gh k = Inr (Some (pre, x, post)) \<longrightarrow>
            (\<exists>gh' bs. BLI_ghash_reinsert NDEBUG gh k v keyfreefp valfreefp
                       = Inr (False, gh', call_free keyfreefp (Some (key x)) @ call_free valfreefp (val x))
                 \<and> gh' = gh\<lparr>buckets := Some bs\<rparr>
                 \<and> chain_of gh (ghash_keyhash gh k) = pre @ x # post
                 \<and> chain_of gh' (ghash_keyhash gh k) = pre @ x\<lparr>key := k, val := Some v\<rparr> # post
                 \<and> add_mset x (mset (all_entries gh'))
                      = add_mset (x\<lparr>key := k, val := Some v\<rparr>) (mset (all_entries gh))
                 \<and> nentries gh' = nentries gh
                 \<and> BLI_ghash_lookup NDEBUG gh' k = Inr v))
       \<and> (ghash_lookup_entry gh k = Inr None \<longrightarrow>
            (\<exists>gh'. BLI_ghash_reinsert NDEBUG gh k v keyfreefp valfreefp = Inr (True, gh', [])
                 \<and> mset (all_entries gh')
                      = add_mset \<lparr>hash = ghash_keyhash gh k, key = k, val = Some v\<rparr> (mset (all_entries gh))
                 \<and> nentries gh' = nentries gh + 1
                 \<and> BLI_ghash_lookup NDEBUG gh' k = Inr v))"
proof -
  have bok: "buckets_ok gh" using ok by (simp add: ghash_ok_def)
  from bok obtain bs where bs: "buckets gh = Some bs" by (auto simp: buckets_ok_iff)
  let ?h = "ghash_keyhash gh k"
  let ?w = "chain_walk (key_match gh k ?h) (chain_of gh ?h)"
  have lk: "ghash_lookup_entry gh k = Inr ?w" by (rule lookup_entry_ok[OF bok])
  have present: "\<exists>gh' bs. BLI_ghash_reinsert NDEBUG gh k v keyfreefp valfreefp
                       = Inr (False, gh', call_free keyfreefp (Some (key x)) @ call_free valfreefp (val x))
                 \<and> gh' = gh\<lparr>buckets := Some bs\<rparr>
                 \<and> chain_of gh ?h = pre @ x # post
                 \<and> chain_of gh' ?h = pre @ x\<lparr>key := k, val := Some v\<rparr> # post
                 \<and> add_mset x (mset (all_entries gh'))
                      = add_mset (x\<lparr>key := k, val := Some v\<rparr>) (mset (all_entries gh))
                 \<and> nentries gh' = nentries gh
                 \<and> BLI_ghash_lookup NDEBUG gh' k = Inr v"
    if w: "?w = Some (pre, x, post)" for pre x post
  proof -
    let ?x = "x\<lparr>key := k, val := Some v\<rparr>"
    let ?c = "pre @ ?x # post"
    from chain_walk_Some[OF w] have ch: "chain_of gh ?h = pre @ x # post"
      and mx: "key_match gh k ?h x" and npre: "\<forall>y \<in> set pre. \<not> key_match gh k ?h y"
      by auto
    have hx: "hash x = ?h" using mx by (simp add: key_match_def)
    let ?bs = "bs[unat (?h mod nbuckets gh) := ?c]"
    let ?g = "gh\<lparr>buckets := Some ?bs\<rparr>"
    have set_r: "bucket_set gh (?h mod nbuckets gh) ?c = Inr ?g"
      by (rule bucket_set_ok[OF bok bs])
    from bok bs have nz: "nbuckets gh \<noteq> 0" and len: "length bs = unat (nbuckets gh)"
      and pl: "placed (nbuckets gh) bs"
      by (auto simp: buckets_ok_iff)
    have i: "unat (?h mod nbuckets gh) < length bs" using bucket_index_less[OF bok bs] .
    have "\<forall>e \<in> set ?c. unat (hash e mod nbuckets gh) = unat (?h mod nbuckets gh)"
    proof
      fix e assume "e \<in> set ?c"
      then have "e = ?x \<or> e \<in> set (chain_of gh ?h)" using ch by auto
      then show "unat (hash e mod nbuckets gh) = unat (?h mod nbuckets gh)"
        using hx chain_hashes[OF bok] by auto
    qed
    from placed_update_same_bucket[OF pl i this]
    have bok': "buckets_ok ?g" using nz len by (simp add: buckets_ok_iff)
    have ch': "chain_of ?g ?h = ?c" using i by (simp add: chain_of_def)
    have "mset (concat ?bs) + mset (bs ! unat (?h mod nbuckets gh)) = mset (concat bs) + mset ?c"
      by (rule mset_concat_set[OF i])
    then have ms: "add_mset x (mset (all_entries ?g)) = add_mset ?x (mset (all_entries gh))"
      using bs ch by (simp add: all_entries_def chain_of_def)
    have kh: "ghash_keyhash ?g k = ?h" by (simp add: ghash_keyhash_def)
    have m': "key_match ?g k ?h ?x" using hx refl by (simp add: key_match_def)
    have w': "chain_walk (key_match ?g k ?h) (chain_of ?g ?h) = Some (pre, ?x, post)"
      unfolding ch' using npre m' by (intro chain_walk_append) simp_all
    have a: "IS_GHASH_ASSERT NDEBUG ?g = Inr ()"
      using notset by (auto simp: IS_GHASH_ASSERT_def BLI_assert_def)
    have lv: "BLI_ghash_lookup NDEBUG ?g k = Inr v"
      using w' a kh by (simp add: BLI_ghash_lookup_def lookup_entry_ok[OF bok'] read_val_def)
    have "BLI_ghash_reinsert NDEBUG gh k v keyfreefp valfreefp
            = Inr (False, ?g, call_free keyfreefp (Some (key x)) @ call_free valfreefp (val x))"
      using w set_r
      by (simp add: BLI_ghash_reinsert_def ghash_insert_safe_def Let_def bucket_hash_ok[OF bok]
          lookup_entry_ex_ok[OF bok])
    then show ?thesis using ch ch' ms lv by auto
  qed
  have absent: "\<exists>gh'. BLI_ghash_reinsert NDEBUG gh k v keyfreefp valfreefp = Inr (True, gh', [])
                 \<and> mset (all_entries gh')
                      = add_mset \<lparr>hash = ?h, key = k, val = Some v\<rparr> (mset (all_entries gh))
                 \<and> nentries gh' = nentries gh + 1
                 \<and> BLI_ghash_lookup NDEBUG gh' k = Inr v"
    if w: "?w = None"
  proof -
    let ?e = "\<lparr>hash = ?h, key = k, val = Some v\<rparr>"
    have dup: "NDEBUG \<or> flag gh AND GHASH_FLAG_ALLOW_DUPES \<noteq> 0 \<or> ghash_lookup_entry gh k = Inr None"
      using w lk by simp
    from insert_ex_ok[OF ok dup notset, of v ?h]
    obtain gh' where ins: "ghash_insert_ex NDEBUG gh k v ?h (?h mod nbuckets gh) = Inr gh'"
      and i: "inserted gh ?e gh'" by blast
    from i have bok': "buckets_ok gh'" and ms: "mset (all_entries gh') = add_mset ?e (mset (all_entries gh))"
      and n: "nentries gh' = nentries gh + 1" and hf: "hashfp gh' = hashfp gh"
      and cf: "cmpfp gh' = cmpfp gh" and fl: "flag gh' = flag gh"
      by (simp_all add: inserted_def ghash_ok_def)
    have kh: "ghash_keyhash gh' k = ?h" using hf by (simp add: ghash_keyhash_def)
    have km: "key_match gh' = key_match gh" using cf by (rule key_match_cmpfp)
    have se: "set (all_entries gh') = insert ?e (set (all_entries gh))"
      using ms by (metis set_mset_add_mset_insert set_mset_mset)
    have none: "\<forall>e \<in> set (all_entries gh). \<not> key_match gh k ?h e"
      using w chain_match_iff[OF bok, of ?h k] by (simp add: chain_walk_None)
    have me: "key_match gh k ?h ?e" using refl by (simp add: key_match_def)
    have ex: "\<exists>e \<in> set (all_entries gh'). key_match gh' k (ghash_keyhash gh' k) e"
      using se me kh km by auto
    have all: "\<forall>e \<in> set (all_entries gh'). key_match gh' k (ghash_keyhash gh' k) e \<longrightarrow> val e = Some v"
      using se none kh km by auto
    have notset': "NDEBUG \<or> flag gh' AND GHASH_FLAG_IS_SET = 0" using notset fl by simp
    from lookup_determined[OF bok' notset' ex all]
    have lv: "BLI_ghash_lookup NDEBUG gh' k = Inr v" .
    have "BLI_ghash_reinsert NDEBUG gh k v keyfreefp valfreefp = Inr (True, gh', [])"
      using w ins
      by (simp add: BLI_ghash_reinsert_def ghash_insert_safe_def Let_def bucket_hash_ok[OF bok]
          lookup_entry_ex_ok[OF bok])
    then show ?thesis using ms n lv by blast
  qed
  show ?thesis using present absent lk by auto
qed

theorem reinsert_overwrites_or_inserts_witness:
  "ghash_ok table_S1 \<and> (False \<or> flag table_S1 AND GHASH_FLAG_IS_SET = 0)
   \<and> fn_call (cmpfp table_S1) 0x100 0x100 = False
   \<and> fn_call (cmpfp table_S1) 0x999 0x999 = False
   \<and> ghash_lookup_entry table_S1 0x100 = Inr (Some ([], \<lparr>hash = 16, key = 0x100, val = Some 0x200\<rparr>, []))
   \<and> (\<exists>gh'. BLI_ghash_reinsert False table_S1 0x100 0x500 (Some 7) (Some 8)
                = Inr (False, gh', [Call 7 (Some 0x100), Call 8 (Some 0x200)])
          \<and> nentries gh' = nentries table_S1
          \<and> BLI_ghash_lookup False gh' 0x100 = Inr 0x500)
   \<and> ghash_lookup_entry table_S1 0x999 = Inr None
   \<and> (\<exists>gh'. BLI_ghash_reinsert False table_S1 0x999 0x500 (Some 7) (Some 8) = Inr (True, gh', [])
          \<and> nentries gh' = nentries table_S1 + 1
          \<and> BLI_ghash_lookup False gh' 0x999 = Inr 0x500)"
proof -
  have h1: "ghash_ok table_S1" by code_simp
  have h2: "False \<or> flag table_S1 AND GHASH_FLAG_IS_SET = 0" by code_simp
  have r1: "fn_call (cmpfp table_S1) 0x100 0x100 = False" by code_simp
  have r2: "fn_call (cmpfp table_S1) 0x999 0x999 = False" by code_simp
  have p: "ghash_lookup_entry table_S1 0x100
             = Inr (Some ([], \<lparr>hash = 16, key = 0x100, val = Some 0x200\<rparr>, []))"
    by code_simp
  have a: "ghash_lookup_entry table_S1 0x999 = Inr None" by code_simp
  from reinsert_overwrites_or_inserts[OF h1 h2 r1, of "0x500" "Some 7" "Some 8"] p
  have c1: "\<exists>gh'. BLI_ghash_reinsert False table_S1 0x100 0x500 (Some 7) (Some 8)
                = Inr (False, gh', [Call 7 (Some 0x100), Call 8 (Some 0x200)])
          \<and> nentries gh' = nentries table_S1
          \<and> BLI_ghash_lookup False gh' 0x100 = Inr 0x500"
    by (auto simp: call_free_def)
  from reinsert_overwrites_or_inserts[OF h1 h2 r2, of "0x500" "Some 7" "Some 8"] a
  have c2: "\<exists>gh'. BLI_ghash_reinsert False table_S1 0x999 0x500 (Some 7) (Some 8) = Inr (True, gh', [])
          \<and> nentries gh' = nentries table_S1 + 1
          \<and> BLI_ghash_lookup False gh' 0x999 = Inr 0x500"
    by auto
  show ?thesis using h1 h2 r1 r2 p a c1 c2 by blast
qed

subsection \<open>Entry sizes of the operands of a set operation\<close>

text \<open>
  Claim C2, as stated, fails: the claim says that every set operation given operands of
  different entry sizes aborts through an assertion. The intersection of the map
  \<open>{1, 2}\<close> (entry size 32) with the set \<open>{2, 3}\<close> (entry size 24), in a build with
  assertions, returns the map reduced to key 2; no assertion looks at the entry sizes.
\<close>

theorem intersection_mixed_sizes_counterexample:
  "entry_size table_S4_A = 32 \<and> entry_size set_2_3 = 24
   \<and> \<not> isl (BLI_ghash_intersection False None None None None (Some table_S4_A) (Some set_2_3) [])
   \<and> map key (all_entries (fst (projr
         (BLI_ghash_intersection False None None None None (Some table_S4_A) (Some set_2_3) []))))
       = [2]"
  by code_simp

text \<open>
  Claim C2, amended. The union (left or right biased) asserts for every operand it visits
  that the operand's entry size equals the destination's, so in a build with assertions
  it returns a table only when all entry sizes agree. Intersection and difference never
  consult the entry size of an operand: changing the entry sizes of the operands leaves
  their result unchanged. (The amended claim says nothing about the symmetric
  difference.)
\<close>

theorem entry_size_checked_by_union_only:
  "(\<forall>r. ghash_union False reverse keycopyfp valcopyfp keyfreefp valfreefp gh1 (Some gh2) arg = Inr r \<longrightarrow>
        (\<forall>ghn \<in> set (gh2 # arg). entry_size ghn = entry_size (case gh1 of None \<Rightarrow> gh2 | Some g \<Rightarrow> g)))
   \<and> ghash_intersection NDEBUG keycopyfp valcopyfp keyfreefp valfreefp (Some g1)
        (Some (gh2\<lparr>entry_size := s\<rparr>)) (map (\<lambda>g. g\<lparr>entry_size := t g\<rparr>) arg)
       = ghash_intersection NDEBUG keycopyfp valcopyfp keyfreefp valfreefp (Some g1) (Some gh2) arg
   \<and> ghash_difference NDEBUG keycopyfp valcopyfp keyfreefp valfreefp (Some g1)
        (Some (gh2\<lparr>entry_size := s\<rparr>)) (map (\<lambda>g. g\<lparr>entry_size := t g\<rparr>) arg)
       = ghash_difference NDEBUG keycopyfp valcopyfp keyfreefp valfreefp (Some g1) (Some gh2) arg"
proof (intro conjI allI impI)
  fix r
  assume u: "ghash_union False reverse keycopyfp valcopyfp keyfreefp valfreefp gh1 (Some gh2) arg = Inr r"
  show "\<forall>ghn \<in> set (gh2 # arg). entry_size ghn = entry_size (case gh1 of None \<Rightarrow> gh2 | Some g \<Rightarrow> g)"
  proof (cases gh1)
    case (Some g)
    then have "union_operands False reverse keycopyfp valcopyfp keyfreefp valfreefp (entry_size g)
                 (gh2 # arg) (g, []) = Inr r"
      using u by (simp add: ghash_union_def setop_start_def BLI_assert_def)
    from union_operands_sizes[OF this] show ?thesis using Some by simp
  next
    case None
    then obtain g where c: "ghash_copy False gh2 keycopyfp valcopyfp = Inr g"
      and o: "union_operands False reverse keycopyfp valcopyfp keyfreefp valfreefp (entry_size g)
                 arg (g, []) = Inr r"
      using u by (auto simp: ghash_union_def setop_start_def BLI_assert_def bind_err_eq_Inr)
    from union_operands_sizes[OF o] ghash_copy_entry_size[OF c] show ?thesis using None by simp
  qed
next
  have m: "map (\<lambda>g. g\<lparr>entry_size := t g\<rparr>) arg = map (\<lambda>g. g\<lparr>entry_size := t g\<rparr>) arg" ..
  show "ghash_intersection NDEBUG keycopyfp valcopyfp keyfreefp valfreefp (Some g1)
        (Some (gh2\<lparr>entry_size := s\<rparr>)) (map (\<lambda>g. g\<lparr>entry_size := t g\<rparr>) arg)
       = ghash_intersection NDEBUG keycopyfp valcopyfp keyfreefp valfreefp (Some g1) (Some gh2) arg"
    by (simp add: ghash_intersection_def setop_start_def BLI_assert_def)
  show "ghash_difference NDEBUG keycopyfp valcopyfp keyfreefp valfreefp (Some g1)
        (Some (gh2\<lparr>entry_size := s\<rparr>)) (map (\<lambda>g. g\<lparr>entry_size := t g\<rparr>) arg)
       = ghash_difference NDEBUG keycopyfp valcopyfp keyfreefp valfreefp (Some g1) (Some gh2) arg"
    by (simp add: ghash_difference_def setop_start_def BLI_assert_def)
qed

theorem entry_size_checked_by_union_only_witness:
  "\<not> isl (ghash_union False False None None None None (Some table_S4_A) (Some table_S4_B) [])
   \<and> entry_size table_S4_B = entry_size table_S4_A
   \<and> entry_size set_2_3 \<noteq> entry_size table_S4_A
   \<and> ghash_union False False None None None None (Some table_S4_A) (Some set_2_3) []
       = Inl (ASSERT ''entry_size == ghn->entry_size'')"
proof -
  let ?u = "ghash_union False False None None None None (Some table_S4_A) (Some table_S4_B) []"
  have h: "\<not> isl ?u" by code_simp
  then have u: "?u = Inr (projr ?u)" by simp
  from entry_size_checked_by_union_only[of False None None None None "Some table_S4_A" table_S4_B "[]",
      THEN conjunct1, rule_format, OF u]
  have e: "entry_size table_S4_B = entry_size table_S4_A" by simp
  have n: "entry_size set_2_3 \<noteq> entry_size table_S4_A" by code_simp
  have a: "ghash_union False False None None None None (Some table_S4_A) (Some set_2_3) []
       = Inl (ASSERT ''entry_size == ghn->entry_size'')"
    by code_simp
  show ?thesis using h e n a by blast
qed

subsection \<open>Load band\<close>

text \<open>
  Claim C5, as stated, fails for \<^verbatim>\<open>BLI_ghash_reserve\<close>: the call hands the reservation,
  not \<open>nentries\<close>, to the resize policy. On a well-formed map inside the band that
  allows shrinking and holds 4 entries in 11 buckets, a reservation of 0 shrinks the
  table to 5 buckets: afterwards \<open>nentries = 4\<close> exceeds \<open>limit_grow = 3\<close> while the
  cursor is at step 0, far from the last step.
\<close>

theorem reserve_breaks_grow_bound_counterexample:
  "ghash_ok table_shrinkable \<and> load_ok table_shrinkable
   \<and> nentries table_shrinkable = 4 \<and> nbuckets table_shrinkable = 11
   \<and> \<not> isl (BLI_ghash_reserve False table_shrinkable 0)
   \<and> nentries (projr (BLI_ghash_reserve False table_shrinkable 0)) = 4
   \<and> nbuckets (projr (BLI_ghash_reserve False table_shrinkable 0)) = 5
   \<and> limit_grow (projr (BLI_ghash_reserve False table_shrinkable 0)) = 3
   \<and> cursize (projr (BLI_ghash_reserve False table_shrinkable 0)) = 0"
  by code_simp

text \<open>
  Claim C5, amended. A table fresh from \<^verbatim>\<open>BLI_ghash_new_ex\<close> is well formed and inside
  the load band. Every public mutation other than reserve (insert, add, reinsert,
  remove, pop, clear, union, reversed union, intersection, difference, symmetric
  difference; the set operations in place on the table or on a new copy), applied to a
  well-formed table inside the band, returns a well-formed table inside the band:
  \<open>limit_grow = 3 nbuckets / 4\<close>, \<open>limit_shrink = 3 nbuckets / 16\<close>,
  \<open>nentries \<le> limit_grow\<close> unless the cursor is at the last step, and
  \<open>nentries \<ge> limit_shrink\<close> unless \<open>ALLOW_SHRINK\<close> is off or the cursor is at the
  floor. After intersection, difference and symmetric difference, which force the
  shrink, the lower bound holds whatever the flag. Reserve sizes the table for the
  reservation: after \<open>reserve(n)\<close> the two bounds hold with \<open>n\<close> in place of
  \<open>nentries\<close>.
\<close>

theorem load_band_preserved:
  assumes ok: "ghash_ok gh" and ld: "load_ok gh" and dst: "dst = Some gh \<or> dst = None"
  shows "(\<forall>g. BLI_ghash_new_ex NDEBUG hfp cfp n = Inr g \<longrightarrow> ghash_ok g \<and> load_ok g)
       \<and> (\<forall>gh'. BLI_ghash_insert NDEBUG gh k v = Inr gh' \<longrightarrow> ghash_ok gh' \<and> load_ok gh')
       \<and> (\<forall>b gh' evs. BLI_ghash_add NDEBUG gh k v = Inr (b, gh', evs) \<longrightarrow> ghash_ok gh' \<and> load_ok gh')
       \<and> (\<forall>b gh' evs. BLI_ghash_reinsert NDEBUG gh k v keyfreefp valfreefp = Inr (b, gh', evs) \<longrightarrow>
             ghash_ok gh' \<and> load_ok gh')
       \<and> (\<forall>b gh' evs. BLI_ghash_remove NDEBUG gh k keyfreefp valfreefp = Inr (b, gh', evs) \<longrightarrow>
             ghash_ok gh' \<and> load_ok gh')
       \<and> (\<forall>p gh' evs. BLI_ghash_popkey NDEBUG gh k keyfreefp = Inr (p, gh', evs) \<longrightarrow>
             ghash_ok gh' \<and> load_ok gh')
       \<and> (\<forall>gh' evs. BLI_ghash_clear_ex NDEBUG gh keyfreefp valfreefp n = Inr (gh', evs) \<longrightarrow>
             ghash_ok gh' \<and> load_ok gh')
       \<and> (\<forall>gh' evs. BLI_ghash_union NDEBUG keycopyfp valcopyfp dst gh2 arg = Inr (gh', evs) \<longrightarrow>
             ghash_ok gh' \<and> load_ok gh')
       \<and> (\<forall>gh' evs. BLI_ghash_union_reversed NDEBUG keycopyfp valcopyfp keyfreefp valfreefp dst gh2 arg
                        = Inr (gh', evs) \<longrightarrow>
             ghash_ok gh' \<and> load_ok gh')
       \<and> (\<forall>gh' evs. BLI_ghash_intersection NDEBUG keycopyfp valcopyfp keyfreefp valfreefp dst (Some g2) arg
                        = Inr (gh', evs) \<longrightarrow>
             ghash_ok gh' \<and> load_ok gh' \<and> shrunk_ok gh')
       \<and> (\<forall>gh' evs. BLI_ghash_difference NDEBUG keycopyfp valcopyfp keyfreefp valfreefp dst (Some g2) arg
                        = Inr (gh', evs) \<longrightarrow>
             ghash_ok gh' \<and> load_ok gh' \<and> shrunk_ok gh')
       \<and> (\<forall>gh' evs. BLI_ghash_symmetric_difference NDEBUG keycopyfp valcopyfp keyfreefp valfreefp dst gh2 arg
                        = Inr (gh', evs) \<longrightarrow>
             ghash_ok gh' \<and> load_ok gh' \<and> shrunk_ok gh')
       \<and> (\<forall>gh'. BLI_ghash_reserve NDEBUG gh n = Inr gh' \<longrightarrow>
             ghash_ok gh' \<and> (n \<le> limit_grow gh' \<or> unat (cursize gh') = 26)
             \<and> (limit_shrink gh' \<le> n \<or> flag gh' AND GHASH_FLAG_ALLOW_SHRINK = 0
                  \<or> cursize gh' = size_min gh'))"
proof -
  have d: "\<forall>g. dst = Some g \<longrightarrow> ghash_ok g \<and> load_ok g" using ok ld dst by auto
  have c0: "\<forall>g. BLI_ghash_new_ex NDEBUG hfp cfp n = Inr g \<longrightarrow> ghash_ok g \<and> load_ok g"
    using ghash_new_ok by (auto simp: BLI_ghash_new_ex_def)
  have c1: "\<forall>gh'. BLI_ghash_insert NDEBUG gh k v = Inr gh' \<longrightarrow> ghash_ok gh' \<and> load_ok gh'"
    using insert_load[OF ok] by blast
  have c2: "\<forall>b gh' evs. BLI_ghash_add NDEBUG gh k v = Inr (b, gh', evs) \<longrightarrow> ghash_ok gh' \<and> load_ok gh'"
    using insert_safe_load[OF ok ld] by (auto simp: BLI_ghash_add_def)
  have c3: "\<forall>b gh' evs. BLI_ghash_reinsert NDEBUG gh k v keyfreefp valfreefp = Inr (b, gh', evs) \<longrightarrow>
             ghash_ok gh' \<and> load_ok gh'"
    using insert_safe_load[OF ok ld] by (auto simp: BLI_ghash_reinsert_def)
  have c4: "\<forall>b gh' evs. BLI_ghash_remove NDEBUG gh k keyfreefp valfreefp = Inr (b, gh', evs) \<longrightarrow>
             ghash_ok gh' \<and> load_ok gh'"
    using remove_load[OF ok ld] by blast
  have c5: "\<forall>p gh' evs. BLI_ghash_popkey NDEBUG gh k keyfreefp = Inr (p, gh', evs) \<longrightarrow>
             ghash_ok gh' \<and> load_ok gh'"
    using popkey_load[OF ok ld] by blast
  have c6: "\<forall>gh' evs. BLI_ghash_clear_ex NDEBUG gh keyfreefp valfreefp n = Inr (gh', evs) \<longrightarrow>
             ghash_ok gh' \<and> load_ok gh'"
    using clear_load by blast
  have c7: "\<forall>gh' evs. BLI_ghash_union NDEBUG keycopyfp valcopyfp dst gh2 arg = Inr (gh', evs) \<longrightarrow>
             ghash_ok gh' \<and> load_ok gh'"
    using union_load[OF _ d] by (auto simp: BLI_ghash_union_def)
  have c8: "\<forall>gh' evs. BLI_ghash_union_reversed NDEBUG keycopyfp valcopyfp keyfreefp valfreefp dst gh2 arg
                        = Inr (gh', evs) \<longrightarrow> ghash_ok gh' \<and> load_ok gh'"
    using union_load[OF _ d] by (auto simp: BLI_ghash_union_reversed_def)
  have c9: "\<forall>gh' evs. BLI_ghash_intersection NDEBUG keycopyfp valcopyfp keyfreefp valfreefp dst (Some g2) arg
                        = Inr (gh', evs) \<longrightarrow> ghash_ok gh' \<and> load_ok gh' \<and> shrunk_ok gh'"
  proof (intro allI impI)
    fix gh' evs
    assume "BLI_ghash_intersection NDEBUG keycopyfp valcopyfp keyfreefp valfreefp dst (Some g2) arg = Inr (gh', evs)"
    then obtain g1 ops where "setop_start NDEBUG keycopyfp valcopyfp dst (Some g2) arg = Inr (g1, ops)"
      "sweep_operands NDEBUG True keyfreefp valfreefp ops (g1, []) = Inr (gh', evs)"
      by (auto simp: BLI_ghash_intersection_def ghash_intersection_def bind_err_eq_Inr)
    from sweep_setop_ok[OF this d] show "ghash_ok gh' \<and> load_ok gh' \<and> shrunk_ok gh'" .
  qed
  have c10: "\<forall>gh' evs. BLI_ghash_difference NDEBUG keycopyfp valcopyfp keyfreefp valfreefp dst (Some g2) arg
                        = Inr (gh', evs) \<longrightarrow> ghash_ok gh' \<and> load_ok gh' \<and> shrunk_ok gh'"
  proof (intro allI impI)
    fix gh' evs
    assume "BLI_ghash_difference NDEBUG keycopyfp valcopyfp keyfreefp valfreefp dst (Some g2) arg = Inr (gh', evs)"
    then obtain g1 ops where "setop_start NDEBUG keycopyfp valcopyfp dst (Some g2) arg = Inr (g1, ops)"
      "sweep_operands NDEBUG False keyfreefp valfreefp ops (g1, []) = Inr (gh', evs)"
      by (auto simp: BLI_ghash_difference_def ghash_difference_def bind_err_eq_Inr)
    from sweep_setop_ok[OF this d] show "ghash_ok gh' \<and> load_ok gh' \<and> shrunk_ok gh'" .
  qed
  have c11: "\<forall>gh' evs. BLI_ghash_symmetric_difference NDEBUG keycopyfp valcopyfp keyfreefp valfreefp dst gh2 arg
                        = Inr (gh', evs) \<longrightarrow> ghash_ok gh' \<and> load_ok gh' \<and> shrunk_ok gh'"
    using symdiff_ok[OF _ d] by (auto simp: BLI_ghash_symmetric_difference_def)
  have c12: "\<forall>gh'. BLI_ghash_reserve NDEBUG gh n = Inr gh' \<longrightarrow>
             ghash_ok gh' \<and> (n \<le> limit_grow gh' \<or> unat (cursize gh') = 26)
             \<and> (limit_shrink gh' \<le> n \<or> flag gh' AND GHASH_FLAG_ALLOW_SHRINK = 0
                  \<or> cursize gh' = size_min gh')"
  proof (intro allI impI)
    fix gh' assume r: "BLI_ghash_reserve NDEBUG gh n = Inr gh'"
    have ro: "resize_ok gh" and bo: "buckets gh = None \<or> buckets_ok gh"
      using ok by (simp_all add: ghash_ok_def)
    from expand_props[OF ro bo, of NDEBUG n True False] r
    have "expand_post gh n (False \<or> flag gh AND GHASH_FLAG_ALLOW_SHRINK \<noteq> 0) gh'"
      by (auto simp: BLI_ghash_reserve_def)
    then show "ghash_ok gh' \<and> (n \<le> limit_grow gh' \<or> unat (cursize gh') = 26)
             \<and> (limit_shrink gh' \<le> n \<or> flag gh' AND GHASH_FLAG_ALLOW_SHRINK = 0
                  \<or> cursize gh' = size_min gh')"
      unfolding expand_post_def ghash_ok_def by auto
  qed
  show ?thesis using c0 c1 c2 c3 c4 c5 c6 c7 c8 c9 c10 c11 c12 by blast
qed

theorem load_band_preserved_witness:
  "ghash_ok table_S4_A \<and> load_ok table_S4_A \<and> (Some table_S4_A = Some table_S4_A \<or> Some table_S4_A = None)
   \<and> \<not> isl (BLI_ghash_insert False table_S4_A 7 8)
   \<and> load_ok (projr (BLI_ghash_insert False table_S4_A 7 8))
   \<and> \<not> isl (BLI_ghash_remove False table_S4_A 1 None None)
   \<and> load_ok (fst (snd (projr (BLI_ghash_remove False table_S4_A 1 None None))))
   \<and> \<not> isl (BLI_ghash_intersection False None None None None (Some table_S4_A) (Some table_S4_B) [])
   \<and> load_ok (fst (projr (BLI_ghash_intersection False None None None None (Some table_S4_A) (Some table_S4_B) [])))
   \<and> shrunk_ok (fst (projr (BLI_ghash_intersection False None None None None (Some table_S4_A) (Some table_S4_B) [])))"
proof -
  have h1: "ghash_ok table_S4_A" by code_simp
  have h2: "load_ok table_S4_A" by code_simp
  have h3: "Some table_S4_A = Some table_S4_A \<or> Some table_S4_A = None" by simp
  let ?i = "BLI_ghash_insert False table_S4_A 7 8"
  let ?r = "BLI_ghash_remove False table_S4_A 1 None None"
  let ?x = "BLI_ghash_intersection False None None None None (Some table_S4_A) (Some table_S4_B) []"
  have i: "\<not> isl ?i" by code_simp
  have r: "\<not> isl ?r" by code_simp
  have x: "\<not> isl ?x" by code_simp
  note t = load_band_preserved[OF h1 h2 h3, where NDEBUG = False and v = 8
      and keyfreefp = None and valfreefp = None and keycopyfp = None and valcopyfp = None
      and ?g2.0 = table_S4_B and arg = "[]"]
  have ie: "?i = Inr (projr ?i)" using i by simp
  have re: "BLI_ghash_remove False table_S4_A 1 None None
              = Inr (fst (projr ?r), fst (snd (projr ?r)), snd (snd (projr ?r)))"
    using r by simp
  have xe: "?x = Inr (fst (projr ?x), snd (projr ?x))" using x by simp
  have a: "load_ok (projr ?i)"
    using t[where k = 7, THEN conjunct2, THEN conjunct1, rule_format, OF ie] by simp
  have b: "load_ok (fst (snd (projr ?r)))"
    using t[where k = 1, THEN conjunct2, THEN conjunct2, THEN conjunct2, THEN conjunct2,
        THEN conjunct1, rule_format, OF re] by simp
  have c: "load_ok (fst (projr ?x)) \<and> shrunk_ok (fst (projr ?x))"
    using t[THEN conjunct2, THEN conjunct2, THEN conjunct2, THEN conjunct2, THEN conjunct2,
        THEN conjunct2, THEN conjunct2, THEN conjunct2, THEN conjunct2, THEN conjunct1,
        rule_format, OF xe] by simp
  show ?thesis using h1 h2 h3 i r x a b c by blast
qed

end
